theory Spec2Isabelle
  imports Complex_Main
begin

section \<open>Data model\<close>

text \<open>
  The extension modules \<^verbatim>\<open>cgeom\<close> and \<^verbatim>\<open>ckml\<close> work on C doubles. Two readings of a
  double are used. In the exact reading a double is the real number it denotes and every
  arithmetic operation is the exact operation on reals, \<^verbatim>\<open>M_PI\<close> is \<open>pi\<close> and \<^verbatim>\<open>1e-12\<close> is
  \<open>1 / 10 ^ 12\<close>: rounding, overflow, infinities and NaN have no counterpart there. It
  serves \<^verbatim>\<open>point_in_polygon\<close>, the text parser, and the formula of \<^verbatim>\<open>polygon_area\<close>. In the
  IEEE reading a double is a binary64 value and every operation rounds, overflows and
  passes NaN on as the hardware does. It serves \<^verbatim>\<open>haversine_distance\<close> and a second
  transcription of \<^verbatim>\<open>polygon_area\<close>, whose names end in \<open>_d\<close>.

  An element handed over from Python is either a tuple of two numbers, on which
  \<^verbatim>\<open>PyArg_ParseTuple(item, "dd", ...)\<close> succeeds, or any other object, on which it fails
  and the function returns \<^verbatim>\<open>NULL\<close> with the exception that \<^verbatim>\<open>PyArg_ParseTuple\<close> set.
  A Python sequence, once \<^verbatim>\<open>PySequence_Fast\<close> has accepted it, is the list of its elements.
\<close>

datatype error = ArgumentError

datatype pyobj = Tuple2 real real | Other

fun parse_dd :: "pyobj \<Rightarrow> (real \<times> real) option" where
  "parse_dd (Tuple2 a b) = Some (a, b)"
| "parse_dd Other = None"

section \<open>IEEE doubles\<close>

text \<open>
  A C double is a finite number, an infinity or NaN. \<open>Fin x\<close> is the finite double that
  denotes the real number \<open>x\<close>; the two zeros are not told apart, which matters to no
  operation below except the sign of a quotient by zero and of \<^verbatim>\<open>atan2\<close> at the origin,
  and the functions modelled here never divide by a variable that can be zero.
\<close>

datatype double = Fin real | PInf | NInf | NaN

text \<open>
  Rounding to nearest, ties to even, onto binary64: a significand of 53 bits, so the last
  place of \<open>x\<close> has the exponent \<open>\<lfloor>log 2 \<bar>x\<bar>\<rfloor> - 52\<close>, and not less than \<open>-1074\<close>, where the
  subnormal numbers lie. The rounded value is an infinity when its magnitude reaches
  \<open>2 ^ 1024\<close>.
\<close>

definition round_even :: "real \<Rightarrow> int" where
  "round_even y =
     (let f = \<lfloor>y\<rfloor>; d = y - of_int f
      in if d < 1 / 2 then f else if 1 / 2 < d then f + 1 else if even f then f else f + 1)"

definition ulp_exp :: "real \<Rightarrow> int" where
  "ulp_exp x = max \<lfloor>log 2 \<bar>x\<bar>\<rfloor> (- 1022) - 52"

definition round_nearest :: "real \<Rightarrow> real" where
  "round_nearest x =
     (if x = 0 then 0
      else of_int (round_even (x / 2 powr of_int (ulp_exp x))) * 2 powr of_int (ulp_exp x))"

definition overflow_threshold :: real where
  "overflow_threshold = 2 ^ 1024"

definition rounded :: "real \<Rightarrow> double" where
  "rounded x =
     (let y = round_nearest x
      in if overflow_threshold \<le> \<bar>y\<bar> then (if 0 < y then PInf else NInf) else Fin y)"

text \<open>
  The operations of C on doubles. Each one rounds its exact result once: no fused
  multiply-add and no wider intermediate format. \<^verbatim>\<open>a - b\<close> is \<^verbatim>\<open>a + (-b)\<close>.
\<close>

fun fneg :: "double \<Rightarrow> double" where
  "fneg (Fin x) = Fin (- x)"
| "fneg PInf = NInf"
| "fneg NInf = PInf"
| "fneg NaN = NaN"

fun fadd :: "double \<Rightarrow> double \<Rightarrow> double" where
  "fadd NaN _ = NaN"
| "fadd _ NaN = NaN"
| "fadd (Fin x) (Fin y) = rounded (x + y)"
| "fadd (Fin x) PInf = PInf"
| "fadd (Fin x) NInf = NInf"
| "fadd PInf (Fin y) = PInf"
| "fadd NInf (Fin y) = NInf"
| "fadd PInf PInf = PInf"
| "fadd NInf NInf = NInf"
| "fadd PInf NInf = NaN"
| "fadd NInf PInf = NaN"

definition fsub :: "double \<Rightarrow> double \<Rightarrow> double" where
  "fsub a b = fadd a (fneg b)"

fun fmul :: "double \<Rightarrow> double \<Rightarrow> double" where
  "fmul NaN _ = NaN"
| "fmul _ NaN = NaN"
| "fmul (Fin x) (Fin y) = rounded (x * y)"
| "fmul (Fin x) PInf = (if x = 0 then NaN else if 0 < x then PInf else NInf)"
| "fmul (Fin x) NInf = (if x = 0 then NaN else if 0 < x then NInf else PInf)"
| "fmul PInf (Fin y) = (if y = 0 then NaN else if 0 < y then PInf else NInf)"
| "fmul NInf (Fin y) = (if y = 0 then NaN else if 0 < y then NInf else PInf)"
| "fmul PInf PInf = PInf"
| "fmul NInf NInf = PInf"
| "fmul PInf NInf = NInf"
| "fmul NInf PInf = NInf"

fun fdiv :: "double \<Rightarrow> double \<Rightarrow> double" where
  "fdiv NaN _ = NaN"
| "fdiv _ NaN = NaN"
| "fdiv (Fin x) (Fin y) =
     (if y = 0 then (if x = 0 then NaN else if 0 < x then PInf else NInf) else rounded (x / y))"
| "fdiv (Fin x) PInf = Fin 0"
| "fdiv (Fin x) NInf = Fin 0"
| "fdiv PInf (Fin y) = (if 0 \<le> y then PInf else NInf)"
| "fdiv NInf (Fin y) = (if 0 \<le> y then NInf else PInf)"
| "fdiv PInf PInf = NaN"
| "fdiv NInf NInf = NaN"
| "fdiv PInf NInf = NaN"
| "fdiv NInf PInf = NaN"


text \<open>\<^verbatim>\<open>sqrt\<close> is correctly rounded, and NaN on a negative number.\<close>

fun c_sqrt :: "double \<Rightarrow> double" where
  "c_sqrt (Fin x) = (if x < 0 then NaN else rounded (sqrt x))"
| "c_sqrt PInf = PInf"
| "c_sqrt NInf = NaN"
| "c_sqrt NaN = NaN"

text \<open>\<^verbatim>\<open>M_PI\<close> is the double nearest to \<open>pi\<close>, \<^verbatim>\<open>0x1.921fb54442d18p+1\<close>.\<close>

definition M_PI :: double where
  "M_PI = Fin (884279719003555 / 2 ^ 48)"

text \<open>
  \<^verbatim>\<open>sin\<close>, \<^verbatim>\<open>cos\<close> and \<^verbatim>\<open>atan2\<close> come from the C library, whose results in the last place
  the C standard leaves open: they are parameters. \<open>libm_ok\<close> collects what is used of
  them: NaN on a NaN or infinite argument of \<^verbatim>\<open>sin\<close> and \<^verbatim>\<open>cos\<close> and on a NaN argument of
  \<^verbatim>\<open>atan2\<close>, \<open>sin 0 = 0\<close>, \<open>atan2 0 1 = 0\<close>, and a cosine of a finite number is a finite
  number of magnitude at most \<open>1\<close>. \<open>sin_odd\<close> says that \<^verbatim>\<open>sin (-x)\<close> is \<^verbatim>\<open>-sin (x)\<close>.
\<close>

record libm =
  c_sin :: "double \<Rightarrow> double"
  c_cos :: "double \<Rightarrow> double"
  c_atan2 :: "double \<Rightarrow> double \<Rightarrow> double"

definition libm_ok :: "libm \<Rightarrow> bool" where
  "libm_ok L \<longleftrightarrow>
     c_sin L NaN = NaN \<and> c_sin L PInf = NaN \<and> c_sin L NInf = NaN \<and>
     c_cos L NaN = NaN \<and> c_cos L PInf = NaN \<and> c_cos L NInf = NaN \<and>
     (\<forall>x. c_atan2 L NaN x = NaN) \<and> (\<forall>y. c_atan2 L y NaN = NaN) \<and>
     c_sin L (Fin 0) = Fin 0 \<and> c_atan2 L (Fin 0) (Fin 1) = Fin 0 \<and>
     (\<forall>x. \<exists>c. c_cos L (Fin x) = Fin c \<and> \<bar>c\<bar> \<le> 1)"

definition sin_odd :: "libm \<Rightarrow> bool" where
  "sin_odd L \<longleftrightarrow> (\<forall>x. c_sin L (fneg x) = fneg (c_sin L x))"

text \<open>
  One such library, with every result correctly rounded, for the evaluation of concrete
  calls. \<open>atan2 y x\<close> on reals is the angle of the point \<open>(x, y)\<close> in \<open>(-pi, pi]\<close>, and \<open>0\<close>
  at the origin.
\<close>

definition atan2 :: "real \<Rightarrow> real \<Rightarrow> real" where
  "atan2 y x =
     (if 0 < x then arctan (y / x)
      else if x < 0 then (if 0 \<le> y then arctan (y / x) + pi else arctan (y / x) - pi)
      else if 0 < y then pi / 2
      else if y < 0 then - (pi / 2)
      else 0)"

fun sin_rn :: "double \<Rightarrow> double" where
  "sin_rn (Fin x) = rounded (sin x)"
| "sin_rn _ = NaN"

fun cos_rn :: "double \<Rightarrow> double" where
  "cos_rn (Fin x) = rounded (cos x)"
| "cos_rn _ = NaN"

fun atan2_rn :: "double \<Rightarrow> double \<Rightarrow> double" where
  "atan2_rn NaN _ = NaN"
| "atan2_rn _ NaN = NaN"
| "atan2_rn (Fin y) (Fin x) = rounded (atan2 y x)"
| "atan2_rn (Fin y) PInf = Fin 0"
| "atan2_rn (Fin y) NInf = (if 0 \<le> y then rounded pi else rounded (- pi))"
| "atan2_rn PInf (Fin x) = rounded (pi / 2)"
| "atan2_rn NInf (Fin x) = rounded (- (pi / 2))"
| "atan2_rn PInf PInf = rounded (pi / 4)"
| "atan2_rn NInf PInf = rounded (- (pi / 4))"
| "atan2_rn PInf NInf = rounded (3 * pi / 4)"
| "atan2_rn NInf NInf = rounded (- (3 * pi / 4))"

definition libm_rn :: libm where
  "libm_rn = \<lparr>c_sin = sin_rn, c_cos = cos_rn, c_atan2 = atan2_rn\<rparr>"

text \<open>A Python element whose two numbers are kept as doubles.\<close>

datatype pyobj_d = Tuple2_d double double | Other_d

fun parse_dd_d :: "pyobj_d \<Rightarrow> (double \<times> double) option" where
  "parse_dd_d (Tuple2_d a b) = Some (a, b)"
| "parse_dd_d Other_d = None"

section \<open>cgeom.c\<close>

subsection \<open>haversine_distance\<close>

text \<open>
  \<^verbatim>\<open>py_haversine_distance\<close> in double arithmetic, statement by statement. The integer
  \<^verbatim>\<open>2\<close> is converted to the double \<open>2\<close>.
\<close>

definition haversine :: "libm \<Rightarrow> double \<Rightarrow> double \<Rightarrow> double \<Rightarrow> double \<Rightarrow> double" where
  "haversine L lat1 lon1 lat2 lon2 =
     (let r = Fin 6371000;
          phi1 = fdiv (fmul lat1 M_PI) (Fin 180);
          phi2 = fdiv (fmul lat2 M_PI) (Fin 180);
          d_phi = fdiv (fmul (fsub lat2 lat1) M_PI) (Fin 180);
          d_lambda = fdiv (fmul (fsub lon2 lon1) M_PI) (Fin 180);
          a = fadd (fmul (c_sin L (fdiv d_phi (Fin 2))) (c_sin L (fdiv d_phi (Fin 2))))
                (fmul (fmul (fmul (c_cos L phi1) (c_cos L phi2)) (c_sin L (fdiv d_lambda (Fin 2))))
                   (c_sin L (fdiv d_lambda (Fin 2))));
          c = fmul (Fin 2) (c_atan2 L (c_sqrt a) (c_sqrt (fsub (Fin 1) a)));
          dist = fmul r c
      in dist)"

text \<open>The format \<^verbatim>\<open>"(dd)(dd)"\<close>: both arguments must be pairs of numbers.\<close>

definition py_haversine_distance :: "libm \<Rightarrow> pyobj_d \<Rightarrow> pyobj_d \<Rightarrow> error + double" where
  "py_haversine_distance L p q =
     (case (parse_dd_d p, parse_dd_d q) of
        (Some (lat1, lon1), Some (lat2, lon2)) \<Rightarrow> Inr (haversine L lat1 lon1 lat2 lon2)
      | _ \<Rightarrow> Inl ArgumentError)"

subsection \<open>polygon_area\<close>

text \<open>
  In the exact reading. The first loop: the sums of the latitudes and of the longitudes.
\<close>

function sum_loop :: "pyobj list \<Rightarrow> nat \<Rightarrow> real \<Rightarrow> real \<Rightarrow> error + real \<times> real" where
  "sum_loop seq i sum_lat sum_lon =
     (if i < length seq then
        (case parse_dd (seq ! i) of
           None \<Rightarrow> Inl ArgumentError
         | Some (lat, lon) \<Rightarrow> sum_loop seq (i + 1) (sum_lat + lat) (sum_lon + lon))
      else Inr (sum_lat, sum_lon))"
  by pat_completeness auto
termination
  by (relation "measure (\<lambda>(seq, i, sum_lat, sum_lon). length seq - i)") auto

declare sum_loop.simps [simp del]

text \<open>The second loop: the shoelace sum, with the previous projected vertex carried along.\<close>

function area_loop ::
  "pyobj list \<Rightarrow> real \<Rightarrow> real \<Rightarrow> real \<Rightarrow> nat \<Rightarrow> real \<Rightarrow> real \<Rightarrow> real \<Rightarrow> error + real" where
  "area_loop seq lat0 lon0 cos_lat0 i prev_x prev_y area =
     (if i < length seq then
        (case parse_dd (seq ! i) of
           None \<Rightarrow> Inl ArgumentError
         | Some (lat, lon) \<Rightarrow>
             (let x = (lon - lon0) * cos_lat0;
                  y = lat - lat0
              in area_loop seq lat0 lon0 cos_lat0 (i + 1) x y (area + (prev_x * y - x * prev_y))))
      else Inr area)"
  by pat_completeness auto
termination
  by (relation "measure (\<lambda>(seq, lat0, lon0, cos_lat0, i, prev_x, prev_y, area). length seq - i)")
    auto

declare area_loop.simps [simp del]

definition py_polygon_area :: "pyobj list \<Rightarrow> error + real" where
  "py_polygon_area seq =
     (let n = length seq in
      if n < 3 then Inr 0
      else
        (case sum_loop seq 0 0 0 of
           Inl e \<Rightarrow> Inl e
         | Inr (sum_lat, sum_lon) \<Rightarrow>
             (let lat0 = sum_lat / real n;
                  lon0 = sum_lon / real n;
                  cos_lat0 = cos (lat0 * pi / 180)
              in case parse_dd (seq ! (n - 1)) of
                   None \<Rightarrow> Inl ArgumentError
                 | Some (latp, lonp) \<Rightarrow>
                     (let prev_x = (lonp - lon0) * cos_lat0;
                          prev_y = latp - lat0
                      in case area_loop seq lat0 lon0 cos_lat0 0 prev_x prev_y 0 of
                           Inl e \<Rightarrow> Inl e
                         | Inr area \<Rightarrow>
                             (let area' = \<bar>area\<bar> / 2;
                                  meter_per_deg = 111320;
                                  res = area' * meter_per_deg * meter_per_deg
                              in Inr res)))))"






subsection \<open>point_in_polygon\<close>

function pip_loop :: "real \<Rightarrow> real \<Rightarrow> pyobj list \<Rightarrow> nat \<Rightarrow> bool \<Rightarrow> error + bool" where
  "pip_loop lat lon seq i inside =
     (if i < length seq then
        (case (parse_dd (seq ! i), parse_dd (seq ! ((i + 1) mod length seq))) of
           (Some (lat1, lon1), Some (lat2, lon2)) \<Rightarrow>
             pip_loop lat lon seq (i + 1)
               (if (lon1 > lon) \<noteq> (lon2 > lon) then
                  (let intersect = (lat2 - lat1) * (lon - lon1) / (lon2 - lon1 + 1 / 10 ^ 12) + lat1
                   in if lat < intersect then \<not> inside else inside)
                else inside)
         | _ \<Rightarrow> Inl ArgumentError)
      else Inr inside)"
  by pat_completeness auto
termination
  by (relation "measure (\<lambda>(lat, lon, seq, i, inside). length seq - i)") auto

declare pip_loop.simps [simp del]

text \<open>The format \<^verbatim>\<open>"(dd)O"\<close>: the point must be a pair of numbers; the ring is a sequence.\<close>

definition py_point_in_polygon :: "pyobj \<Rightarrow> pyobj list \<Rightarrow> error + bool" where
  "py_point_in_polygon pt seq =
     (case parse_dd pt of
        None \<Rightarrow> Inl ArgumentError
      | Some (lat, lon) \<Rightarrow>
          if length seq < 3 then Inr False
          else pip_loop lat lon seq 0 False)"

section \<open>ckml.c\<close>

text \<open>
  \<^verbatim>\<open>isspace\<close> in the C locale: space, tab, line feed, vertical tab, form feed and
  carriage return.
\<close>

definition isspace :: "char \<Rightarrow> bool" where
  "isspace c \<longleftrightarrow>
     c = CHR '' '' \<or> c = CHR 0x09 \<or> c = CHR 0x0A \<or> c = CHR 0x0B \<or> c = CHR 0x0C \<or> c = CHR 0x0D"

text \<open>
  \<^verbatim>\<open>parse_coords\<close> walks a pointer \<open>p\<close> through the text up to \<open>end\<close>. The embedding
  keeps the characters from \<open>p\<close> to \<open>end\<close> in place of the pointer, so \<^verbatim>\<open>p < end\<close> reads
  \<open>p \<noteq> []\<close>, \<^verbatim>\<open>*p\<close> reads \<open>hd p\<close> and \<^verbatim>\<open>p++\<close> reads \<open>tl p\<close>. The C library's
  \<^verbatim>\<open>strtod\<close> is a parameter: applied to the characters from \<open>p\<close> on, it returns the
  number read and how many characters it consumed (\<open>q - p\<close>), and \<open>0\<close> characters when
  there is no number (a count beyond the end of the string, which the C function never
  returns, is cut off by \<open>drop\<close>). The calls into the Python runtime that build the
  list can fail only when memory runs out, which is not modelled. The outer loop has no bound that is visible in its text, so it is
  a partial function whose value \<open>None\<close> stands for a run that never ends; the two inner
  loops only step over characters and are \<open>dropWhile\<close>.
\<close>

partial_function (option) parse_loop ::
  "(string \<Rightarrow> 'd \<times> nat) \<Rightarrow> string \<Rightarrow> ('d \<times> 'd) list \<Rightarrow> ('d \<times> 'd) list option" where
  "parse_loop strtod p list =
     (if p \<noteq> [] then
        (let p = dropWhile isspace p in
         if p = [] then Some list
         else
           (case strtod p of (lon, k1) \<Rightarrow>
              let p = drop k1 p;
                  p = (if p \<noteq> [] \<and> hd p = CHR '','' then tl p else p)
              in (case strtod p of (lat, k2) \<Rightarrow>
                    let p = drop k2 p;
                        p = (if p \<noteq> [] \<and> hd p = CHR '','' then
                               (case strtod (tl p) of (alt, k3) \<Rightarrow> drop k3 (tl p))
                             else p);
                        list = list @ [(lat, lon)];
                        p = dropWhile (\<lambda>c. \<not> isspace c) p
                    in parse_loop strtod p list)))
      else Some list)"

declare parse_loop.simps [code]

definition parse_coords :: "(string \<Rightarrow> 'd \<times> nat) \<Rightarrow> string \<Rightarrow> ('d \<times> 'd) list option" where
  "parse_coords strtod text = parse_loop strtod text []"

subsection \<open>A decimal strtod\<close>

text \<open>
  The concrete inputs below are read with this \<^verbatim>\<open>strtod\<close>, which follows the C standard
  for decimal numbers: leading white space, an optional sign, digits with an optional
  fraction, an optional exponent; when no digit is found nothing is consumed and the value
  is \<open>0\<close>. The hexadecimal, \<^verbatim>\<open>INF\<close> and \<^verbatim>\<open>NAN\<close> forms are left out: the general theorems
  are stated for every \<^verbatim>\<open>strtod\<close>, this one serves the examples.
\<close>

definition isdigit :: "char \<Rightarrow> bool" where
  "isdigit c \<longleftrightarrow> c \<in> set ''0123456789''"

definition digit_val :: "char \<Rightarrow> nat" where
  "digit_val c = of_char c - 48"

definition digits_val :: "string \<Rightarrow> nat" where
  "digits_val ds = foldl (\<lambda>a c. 10 * a + digit_val c) 0 ds"

definition sign_of :: "string \<Rightarrow> string" where
  "sign_of s = (if s \<noteq> [] \<and> (hd s = CHR ''+'' \<or> hd s = CHR ''-'') then [hd s] else [])"

definition frac_of :: "string \<Rightarrow> string" where
  "frac_of s = (if s \<noteq> [] \<and> hd s = CHR ''.'' then hd s # takeWhile isdigit (tl s) else [])"

definition exp_of :: "string \<Rightarrow> string" where
  "exp_of s =
     (if s \<noteq> [] \<and> (hd s = CHR ''e'' \<or> hd s = CHR ''E'') then
        (let sg = sign_of (tl s); ds = takeWhile isdigit (drop (length sg) (tl s))
         in if ds = [] then [] else hd s # sg @ ds)
      else [])"

definition signed :: "string \<Rightarrow> real \<Rightarrow> real" where
  "signed sg x = (if sg = ''-'' then - x else x)"

definition strtod_dec :: "string \<Rightarrow> real \<times> nat" where
  "strtod_dec s =
     (let ws = takeWhile isspace s;
          s1 = dropWhile isspace s;
          sg = sign_of s1;
          s2 = drop (length sg) s1;
          ip = takeWhile isdigit s2;
          s3 = dropWhile isdigit s2;
          fr = frac_of s3;
          s4 = drop (length fr) s3;
          ex = exp_of s4;
          mant = real (digits_val (ip @ tl fr)) / 10 ^ (length fr - 1);
          e = digits_val (dropWhile (\<lambda>c. \<not> isdigit c) ex)
      in if ip = [] \<and> tl fr = [] then (0, 0)
         else (signed sg (if sign_of (tl ex) = ''-'' then mant / 10 ^ e else mant * 10 ^ e),
               length ws + length sg + length ip + length fr + length ex))"

section \<open>Notions of the specification\<close>

subsection \<open>Rings of coordinate pairs\<close>

text \<open>A coordinate pair \<open>(lat, lon)\<close> as the Python tuple that carries it.\<close>

definition tuple_of :: "real \<times> real \<Rightarrow> pyobj" where
  "tuple_of p = Tuple2 (fst p) (snd p)"





text \<open>
  The even-odd rule: an edge \<open>(p1, p2)\<close> counts when its longitudes straddle the test
  longitude and the test latitude lies below the crossing latitude; the point is inside
  when the number of such edges of the closed ring is odd.
\<close>

definition crossing :: "real \<Rightarrow> real \<Rightarrow> real \<times> real \<Rightarrow> real \<times> real \<Rightarrow> bool" where
  "crossing lat lon p1 p2 \<longleftrightarrow>
     (snd p1 > lon) \<noteq> (snd p2 > lon) \<and>
     lat < (fst p2 - fst p1) * (lon - snd p1) / (snd p2 - snd p1 + 1 / 10 ^ 12) + fst p1"

definition crossings :: "real \<Rightarrow> real \<Rightarrow> (real \<times> real) list \<Rightarrow> nat" where
  "crossings lat lon ps = length (filter (\<lambda>(p1, p2). crossing lat lon p1 p2) (zip ps (rotate1 ps)))"

subsection \<open>Tokens of a coordinate string\<close>

text \<open>
  The maximal runs of characters that are not white space, each given by the rest of the
  text from its first character on, and as the run alone.
\<close>

abbreviation (input) nonspace :: "char \<Rightarrow> bool" where
  "nonspace \<equiv> (\<lambda>c. \<not> isspace c)"

function token_starts :: "string \<Rightarrow> string list" where
  "token_starts s =
     (let s' = dropWhile isspace s
      in if s' = [] then [] else s' # token_starts (dropWhile (\<lambda>c. \<not> isspace c) s'))"
  by pat_completeness auto
termination
proof (relation "measure length")
  fix s s' :: string
  assume s': "s' = dropWhile isspace s" and ne: "s' \<noteq> []"
  from ne obtain c cs where cs: "s' = c # cs" by (cases s') auto
  from s' ne have "\<not> isspace (hd s')" by (simp add: hd_dropWhile)
  with cs have "dropWhile (\<lambda>c. \<not> isspace c) s' = dropWhile (\<lambda>c. \<not> isspace c) cs" by simp
  then have "length (dropWhile (\<lambda>c. \<not> isspace c) s') \<le> length cs"
    by (simp add: length_dropWhile_le)
  also have "length cs < length s'" by (simp add: cs)
  also have "length s' \<le> length s" by (simp add: s' length_dropWhile_le)
  finally show "(dropWhile (\<lambda>c. \<not> isspace c) s', s) \<in> measure length" by simp
qed simp

declare token_starts.simps [simp del]

definition tokens :: "string \<Rightarrow> string list" where
  "tokens s = map (takeWhile (\<lambda>c. \<not> isspace c)) (token_starts s)"

text \<open>
  What one pass of the loop does at the start \<open>p\<close> of a token: where the latitude is read
  (after the longitude and one comma), the pair it appends, and where it stands before it
  skips to the next white space.
\<close>

definition lat_field :: "(string \<Rightarrow> 'd \<times> nat) \<Rightarrow> string \<Rightarrow> string" where
  "lat_field strtod p =
     (let p1 = drop (snd (strtod p)) p
      in if p1 \<noteq> [] \<and> hd p1 = CHR '','' then tl p1 else p1)"

definition coord_at :: "(string \<Rightarrow> 'd \<times> nat) \<Rightarrow> string \<Rightarrow> 'd \<times> 'd" where
  "coord_at strtod p = (fst (strtod (lat_field strtod p)), fst (strtod p))"

definition item_end :: "(string \<Rightarrow> 'd \<times> nat) \<Rightarrow> string \<Rightarrow> string" where
  "item_end strtod p =
     (let p2 = lat_field strtod p;
          p3 = drop (snd (strtod p2)) p2
      in if p3 \<noteq> [] \<and> hd p3 = CHR '','' then drop (snd (strtod (tl p3))) (tl p3) else p3)"

text \<open>
  What the C standard grants of \<^verbatim>\<open>strtod\<close> and the proofs use: it never consumes more than
  the string holds, and called at a character that is not white space it skips nothing, so
  the characters it consumes are those of a number: none is white space and, in the C
  locale, where the radix character is the point, none is a comma.
\<close>

definition strtod_local :: "(string \<Rightarrow> 'd \<times> nat) \<Rightarrow> bool" where
  "strtod_local strtod \<longleftrightarrow>
     (\<forall>s. snd (strtod s) \<le> length s \<and>
          (s \<noteq> [] \<and> \<not> isspace (hd s) \<longrightarrow>
             (\<forall>c \<in> set (take (snd (strtod s)) s). \<not> isspace c \<and> c \<noteq> CHR '','')))"

text \<open>The characters of a decimal number, and the part of a string the decimal strtod reads.\<close>

definition numchar :: "char \<Rightarrow> bool" where
  "numchar c \<longleftrightarrow> isdigit c \<or> c = CHR ''+'' \<or> c = CHR ''-'' \<or> c = CHR ''.'' \<or> c = CHR ''e'' \<or> c = CHR ''E''"

definition subject :: "string \<Rightarrow> string" where
  "subject s1 =
     (let sg = sign_of s1;
          s2 = drop (length sg) s1;
          ip = takeWhile isdigit s2;
          s3 = dropWhile isdigit s2;
          fr = frac_of s3;
          s4 = drop (length fr) s3;
          ex = exp_of s4
      in sg @ ip @ fr @ ex)"

section \<open>Double arithmetic\<close>

subsection \<open>Rounding\<close>

lemma round_even_int [simp]: "round_even (of_int m) = m"
  by (simp add: round_even_def)

lemma round_even_le: "y \<le> of_int N \<Longrightarrow> round_even y \<le> N"
proof -
  assume a: "y \<le> of_int N"
  have f: "\<lfloor>y\<rfloor> \<le> N" using a by (simp add: floor_le_iff)
  show ?thesis
  proof (cases "y = of_int \<lfloor>y\<rfloor>")
    case True
    then have "round_even y = \<lfloor>y\<rfloor>" by (simp add: round_even_def)
    with f show ?thesis by simp
  next
    case False
    then have "of_int \<lfloor>y\<rfloor> \<noteq> y" by (rule not_sym)
    then have "of_int \<lfloor>y\<rfloor> < y" using of_int_floor_le [of y]
      by (rule order.not_eq_order_implies_strict)
    with a have "(of_int \<lfloor>y\<rfloor> :: real) < of_int N" by linarith
    then have "\<lfloor>y\<rfloor> < N" by simp
    moreover have "round_even y \<le> \<lfloor>y\<rfloor> + 1" by (simp add: round_even_def Let_def)
    ultimately show ?thesis by simp
  qed
qed

lemma round_even_minus: "round_even (- y) = - round_even y"
proof (cases "y = of_int \<lfloor>y\<rfloor>")
  case True
  then obtain m where "y = of_int m" ..
  then have "round_even (- y) = round_even (of_int (- m))" by simp
  also have "\<dots> = - m" by (rule round_even_int)
  finally show ?thesis using \<open>y = of_int m\<close> by simp
next
  case False
  then have "of_int \<lfloor>y\<rfloor> \<noteq> y" by (rule not_sym)
  then have lo: "of_int \<lfloor>y\<rfloor> < y" using of_int_floor_le [of y]
    by (rule order.not_eq_order_implies_strict)
  have hi: "y < of_int \<lfloor>y\<rfloor> + 1" by linarith
  have fl: "\<lfloor>- y\<rfloor> = - \<lfloor>y\<rfloor> - 1"
  proof (rule floor_unique)
    have c: "of_int (- \<lfloor>y\<rfloor> - 1) = - of_int \<lfloor>y\<rfloor> - (1 :: real)" by simp
    show "of_int (- \<lfloor>y\<rfloor> - 1) \<le> - y" unfolding c using hi by linarith
    show "- y < of_int (- \<lfloor>y\<rfloor> - 1) + 1" unfolding c using lo by linarith
  qed
  show ?thesis
    unfolding round_even_def Let_def fl using lo hi by (auto simp: algebra_simps)
qed

lemma round_even_ge: "of_int N \<le> y \<Longrightarrow> N \<le> round_even y"
proof -
  assume "of_int N \<le> y"
  then have "- y \<le> of_int (- N)" by simp
  then have "round_even (- y) \<le> - N" by (rule round_even_le)
  then show ?thesis by (simp add: round_even_minus)
qed

lemma ulp_exp_minus [simp]: "ulp_exp (- x) = ulp_exp x"
  by (simp add: ulp_exp_def)

lemma round_nearest_minus: "round_nearest (- x) = - round_nearest x"
  by (simp add: round_nearest_def round_even_minus)

lemma overflow_threshold_pos: "0 < overflow_threshold"
  unfolding overflow_threshold_def by (rule zero_less_power) simp

lemma rounded_minus: "rounded (- x) = fneg (rounded x)"
  using overflow_threshold_pos by (auto simp: rounded_def round_nearest_minus Let_def)

lemma round_nearest_0 [simp]: "round_nearest 0 = 0"
  by (simp add: round_nearest_def)

lemma rounded_0 [simp]: "rounded 0 = Fin 0"
  using overflow_threshold_pos by (simp add: rounded_def)

lemma round_even_near: "\<bar>y - of_int m\<bar> < 1 / 2 \<Longrightarrow> round_even y = m"
proof -
  assume a: "\<bar>y - of_int m\<bar> < 1 / 2"
  have c: "of_int (m - 1) = of_int m - (1 :: real)" by simp
  show ?thesis
  proof (cases "of_int m \<le> y")
    case True
    have "\<lfloor>y\<rfloor> = m"
    proof (rule floor_unique)
      show "of_int m \<le> y" by (rule True)
      show "y < of_int m + 1" using a by linarith
    qed
    with a True show ?thesis by (simp add: round_even_def Let_def)
  next
    case False
    have f: "\<lfloor>y\<rfloor> = m - 1"
    proof (rule floor_unique)
      show "of_int (m - 1) \<le> y" unfolding c using a by linarith
      show "y < of_int (m - 1) + 1" unfolding c using False by linarith
    qed
    have "1 / 2 < y - of_int (m - 1)" unfolding c using a False by linarith
    then show ?thesis unfolding round_even_def Let_def f by simp
  qed
qed

lemma round_even_tie_up: "y = of_int m - 1 / 2 \<Longrightarrow> even m \<Longrightarrow> round_even y = m"
proof -
  assume y: "y = of_int m - 1 / 2" and e: "even m"
  have f: "\<lfloor>y\<rfloor> = m - 1" unfolding y by (rule floor_unique) simp_all
  have d: "y - of_int (m - 1) = 1 / 2" by (simp add: y)
  from e have "odd (m - 1)" by simp
  then show ?thesis unfolding round_even_def Let_def f d by simp
qed

lemma round_even_tie_down: "y = of_int m + 1 / 2 \<Longrightarrow> even m \<Longrightarrow> round_even y = m"
proof -
  assume y: "y = of_int m + 1 / 2" and e: "even m"
  have f: "\<lfloor>y\<rfloor> = m" unfolding y by (rule floor_unique) simp_all
  have d: "y - of_int m = 1 / 2" by (simp add: y)
  show ?thesis unfolding round_even_def Let_def f d using e by simp
qed

lemma ulp_exp_eq:
  assumes "2 powr (of_int k + 52) \<le> \<bar>x\<bar>" "\<bar>x\<bar> < 2 powr (of_int k + 53)" "- 1074 \<le> k"
  shows "ulp_exp x = k"
proof -
  have pos: "0 < \<bar>x\<bar>" using assms(1) by (smt (verit) powr_gt_zero)
  have "log 2 (2 powr (of_int k + 52)) \<le> log 2 \<bar>x\<bar>"
    using assms(1) pos by (subst log_le_cancel_iff) simp_all
  then have lo: "of_int k + 52 \<le> log 2 \<bar>x\<bar>" by simp
  have "log 2 \<bar>x\<bar> < log 2 (2 powr (of_int k + 53))"
    using assms(2) pos by (subst log_less_cancel_iff) simp_all
  then have hi: "log 2 \<bar>x\<bar> < of_int k + 53" by simp
  have "\<lfloor>log 2 \<bar>x\<bar>\<rfloor> = k + 52"
    by (rule floor_unique) (use lo hi in simp_all)
  with assms(3) show ?thesis by (simp add: ulp_exp_def)
qed

lemma round_nearest_eval_neg:
  assumes "2 ^ 52 \<le> \<bar>x\<bar> * 2 ^ n" "\<bar>x\<bar> * 2 ^ n < 2 ^ 53" "n \<le> 1074"
  shows "round_nearest x = of_int (round_even (x * 2 ^ n)) / 2 ^ n"
proof -
  have p: "2 powr (of_int (- int n)) = 1 / (2 ^ n :: real)"
    by (simp add: powr_minus powr_realpow divide_simps)
  have p52: "2 powr (of_int (- int n) + 52) = 2 ^ 52 / (2 ^ n :: real)"
    by (simp only: powr_add p) (simp add: powr_numeral)
  have p53: "2 powr (of_int (- int n) + 53) = 2 ^ 53 / (2 ^ n :: real)"
    by (simp only: powr_add p) (simp add: powr_numeral)
  have k: "ulp_exp x = - int n"
  proof (rule ulp_exp_eq)
    show "2 powr (of_int (- int n) + 52) \<le> \<bar>x\<bar>"
      unfolding p52 using assms(1) by (simp add: divide_simps)
    show "\<bar>x\<bar> < 2 powr (of_int (- int n) + 53)"
      unfolding p53 using assms(2) by (simp add: divide_simps)
    show "- 1074 \<le> - int n" using assms(3) by simp
  qed
  have "(0 :: real) < 2 ^ 52" by simp
  with assms(1) have "0 < \<bar>x\<bar> * 2 ^ n" by linarith
  then have "x \<noteq> 0" by auto
  then have "round_nearest x =
      of_int (round_even (x / 2 powr of_int (- int n))) * 2 powr of_int (- int n)"
    by (simp only: round_nearest_def k if_False)
  also have "\<dots> = of_int (round_even (x * 2 ^ n)) / 2 ^ n"
    unfolding p by simp
  finally show ?thesis .
qed

lemma round_nearest_eval_pos:
  assumes "2 ^ 52 * 2 ^ n \<le> \<bar>x\<bar>" "\<bar>x\<bar> < 2 ^ 53 * 2 ^ n"
  shows "round_nearest x = of_int (round_even (x / 2 ^ n)) * 2 ^ n"
proof -
  have p: "2 powr (of_int (int n)) = (2 ^ n :: real)"
    by (simp add: powr_realpow)
  have p52: "2 powr (of_int (int n) + 52) = 2 ^ 52 * (2 ^ n :: real)"
    by (simp only: powr_add p) (simp add: powr_numeral)
  have p53: "2 powr (of_int (int n) + 53) = 2 ^ 53 * (2 ^ n :: real)"
    by (simp only: powr_add p) (simp add: powr_numeral)
  have k: "ulp_exp x = int n"
  proof (rule ulp_exp_eq)
    show "2 powr (of_int (int n) + 52) \<le> \<bar>x\<bar>" unfolding p52 using assms(1) by simp
    show "\<bar>x\<bar> < 2 powr (of_int (int n) + 53)" unfolding p53 using assms(2) by simp
    show "- 1074 \<le> int n" by simp
  qed
  have "(0 :: real) < 2 ^ 52 * 2 ^ n" by simp
  with assms(1) have "0 < \<bar>x\<bar>" by linarith
  then have "x \<noteq> 0" by auto
  then have "round_nearest x =
      of_int (round_even (x / 2 powr of_int (int n))) * 2 powr of_int (int n)"
    by (simp only: round_nearest_def k if_False)
  also have "\<dots> = of_int (round_even (x / 2 ^ n)) * 2 ^ n"
    unfolding p by simp
  finally show ?thesis .
qed

lemma round_nearest_le_pow2:
  assumes "\<bar>x\<bar> \<le> 2 ^ n"
  shows "\<bar>round_nearest x\<bar> \<le> 2 ^ n"
proof (cases "x = 0")
  case True
  then show ?thesis by simp
next
  case False
  define k where "k = ulp_exp x"
  define u :: real where "u = 2 powr of_int k"
  have u: "0 < u" by (simp add: u_def)
  have "log 2 \<bar>x\<bar> \<le> log 2 (2 ^ n)"
    using assms False by (subst log_le_cancel_iff) simp_all
  then have "log 2 \<bar>x\<bar> \<le> of_nat n" by simp
  then have "\<lfloor>log 2 \<bar>x\<bar>\<rfloor> \<le> int n" by (simp add: floor_le_iff)
  then have kn: "k \<le> int n - 52" by (simp add: k_def ulp_exp_def)
  define N :: int where "N = 2 ^ nat (int n - k)"
  have "2 powr of_int (int n - k) = (2 :: real) powr of_nat (nat (int n - k))"
    using kn by simp
  also have "\<dots> = 2 ^ nat (int n - k)" by (rule powr_realpow) simp
  finally have "2 powr of_int (int n - k) = (of_int N :: real)" by (simp add: N_def)
  moreover have "(2 :: real) ^ n = 2 powr of_int (int n - k) * u"
    by (simp add: u_def powr_add [symmetric] powr_realpow)
  ultimately have N: "(2 :: real) ^ n = of_int N * u" by simp
  have "x \<le> of_int N * u" using assms N by linarith
  then have "x / u \<le> of_int N" using u by (simp add: pos_divide_le_eq)
  then have 1: "round_even (x / u) \<le> N" by (rule round_even_le)
  have "- (of_int N * u) \<le> x" using assms N by linarith
  then have "of_int (- N) * u \<le> x" by simp
  then have "of_int (- N) \<le> x / u" using u by (simp only: pos_le_divide_eq)
  then have 2: "- N \<le> round_even (x / u)" by (rule round_even_ge)
  from 1 2 have "\<bar>of_int (round_even (x / u)) :: real\<bar> \<le> of_int N"
    by (simp add: abs_le_iff)
  then have "\<bar>of_int (round_even (x / u)) * u\<bar> \<le> of_int N * u"
    using u by (simp add: abs_mult)
  then show ?thesis using False by (simp add: round_nearest_def k_def [symmetric] u_def [symmetric] N)
qed

lemma rounded_finite:
  assumes "\<bar>x\<bar> \<le> 2 ^ n" "n < 1024"
  shows "\<exists>y. rounded x = Fin y \<and> \<bar>y\<bar> \<le> 2 ^ n"
proof -
  have "\<bar>round_nearest x\<bar> \<le> 2 ^ n" using assms(1) by (rule round_nearest_le_pow2)
  moreover have "(2 :: real) ^ n < overflow_threshold"
    unfolding overflow_threshold_def by (rule power_strict_increasing) (use assms(2) in simp_all)
  ultimately show ?thesis by (auto simp: rounded_def Let_def)
qed

lemma rounded_1 [simp]: "rounded 1 = Fin 1"
proof -
  have "round_nearest 1 = of_int (round_even (1 * 2 ^ 52)) / 2 ^ 52"
    by (rule round_nearest_eval_neg) simp_all
  also have "(1 :: real) * 2 ^ 52 = of_int (2 ^ 52)" by simp
  finally have "round_nearest 1 = 1" by (simp only: round_even_int) simp
  moreover have "(1 :: real) < overflow_threshold"
    unfolding overflow_threshold_def by (rule one_less_power) simp_all
  ultimately show ?thesis by (simp add: rounded_def)
qed

lemma rounded_evalI:
  assumes lo: "2 ^ 52 \<le> \<bar>x\<bar> * 2 ^ n" and hi: "\<bar>x\<bar> * 2 ^ n < 2 ^ 53" and n: "n \<le> 1074"
    and m: "\<bar>x * 2 ^ n - of_int m\<bar> < 1 / 2 \<or> (\<bar>x * 2 ^ n - of_int m\<bar> = 1 / 2 \<and> even m)"
    and v: "v = of_int m / 2 ^ n"
  shows "rounded x = Fin v"
proof -
  have r: "round_even (x * 2 ^ n) = m"
  proof -
    from m consider "\<bar>x * 2 ^ n - of_int m\<bar> < 1 / 2"
      | "x * 2 ^ n = of_int m - 1 / 2" "even m" | "x * 2 ^ n = of_int m + 1 / 2" "even m"
      by (auto simp: abs_if split: if_splits)
    then show ?thesis
      by cases (simp_all only: round_even_near round_even_tie_up round_even_tie_down)
  qed
  have rn: "round_nearest x = v"
    unfolding v using round_nearest_eval_neg [OF lo hi n] by (simp only: r)
  have "\<bar>x * 2 ^ n\<bar> < 2 ^ 53" using hi by (simp add: abs_mult)
  with m have "\<bar>of_int m :: real\<bar> < 2 ^ 53 + 1" by linarith
  then have b: "\<bar>of_int m :: real\<bar> < 2 ^ 54" by simp
  have "(1 :: real) \<le> 2 ^ n" by simp
  then have "\<bar>of_int m :: real\<bar> / 2 ^ n \<le> \<bar>of_int m\<bar> / 1"
    by (intro divide_left_mono) simp_all
  then have "\<bar>v\<bar> \<le> \<bar>of_int m\<bar>" unfolding v by (simp add: abs_divide)
  with b have "\<bar>v\<bar> < 2 ^ 54" by linarith
  moreover have "(2 :: real) ^ 54 < overflow_threshold"
    unfolding overflow_threshold_def by (rule power_strict_increasing) simp_all
  ultimately have "\<not> overflow_threshold \<le> \<bar>v\<bar>" by linarith
  then show ?thesis by (simp add: rounded_def Let_def rn)
qed

subsection \<open>The operations\<close>

lemma fadd_NaN [simp]: "fadd x NaN = NaN"
  by (cases x) simp_all

lemma fmul_NaN [simp]: "fmul x NaN = NaN"
  by (cases x) simp_all

lemma fdiv_NaN [simp]: "fdiv x NaN = NaN"
  by (cases x) simp_all

lemma fsub_NaN [simp]: "fsub x NaN = NaN" "fsub NaN x = NaN"
  by (simp_all add: fsub_def)

lemma fadd_commute: "fadd a b = fadd b a"
  by (cases a; cases b) (simp_all add: add.commute)

lemma fmul_commute: "fmul a b = fmul b a"
  by (cases a; cases b) (simp_all add: mult.commute)

lemma fneg_fadd: "fneg (fadd a b) = fadd (fneg a) (fneg b)"
  by (cases a; cases b) (simp_all add: rounded_minus [symmetric])

lemma fneg_fneg [simp]: "fneg (fneg a) = a"
  by (cases a) simp_all

lemma fsub_swap: "fsub a b = fneg (fsub b a)"
  by (simp add: fsub_def fneg_fadd fadd_commute)

lemma fmul_fneg: "fmul (fneg a) b = fneg (fmul a b)"
  by (cases a; cases b) (auto simp: rounded_minus [symmetric])

lemma fdiv_fneg: "fdiv (fneg a) b = fneg (fdiv a b)"
  by (cases a; cases b) (auto simp: rounded_minus [symmetric])

lemma fmul_fneg_fneg: "fmul (fneg a) (fneg a) = fmul a a"
  by (cases a) simp_all

lemma mul_pi_overflow: "fmul (Fin (2 ^ 1023)) M_PI = PInf"
proof -
  have x: "(2 :: real) ^ 1023 * (884279719003555 / 2 ^ 48) = 7074237752028440 * 2 ^ 972"
    by simp
  have "round_nearest (7074237752028440 * 2 ^ 972) =
      of_int (round_even (7074237752028440 * 2 ^ 972 / 2 ^ 972)) * 2 ^ 972"
    by (rule round_nearest_eval_pos) simp_all
  also have "(7074237752028440 * 2 ^ 972 / 2 ^ 972 :: real) = of_int 7074237752028440" by simp
  finally have r: "round_nearest (7074237752028440 * 2 ^ 972) = 7074237752028440 * 2 ^ 972"
    by (simp only: round_even_int)
  have "overflow_threshold \<le> 7074237752028440 * 2 ^ 972"
    by (simp add: overflow_threshold_def)
  then show ?thesis
    unfolding M_PI_def fmul.simps x rounded_def Let_def r by simp
qed

lemma haversine_overflow:
  assumes "libm_ok L"
  shows "haversine L (Fin (2 ^ 1023)) lon1 lat2 lon2 = NaN"
proof -
  have c: "c_cos L PInf = NaN" and a: "\<And>x. c_atan2 L NaN x = NaN"
    using assms by (simp_all add: libm_ok_def)
  show ?thesis
    unfolding haversine_def Let_def mul_pi_overflow by (simp add: c a)
qed

lemma atan2_rn_NaN [simp]: "atan2_rn y NaN = NaN"
  by (cases y) simp_all

lemma libm_rn_ok: "libm_ok libm_rn"
proof -
  have "\<exists>c. cos_rn (Fin x) = Fin c \<and> \<bar>c\<bar> \<le> 1" for x
    using rounded_finite [of "cos x" 0] by simp
  then show ?thesis by (simp add: libm_ok_def libm_rn_def atan2_def)
qed

lemma libm_rn_sin_odd: "sin_odd libm_rn"
  unfolding sin_odd_def libm_rn_def
proof (intro allI)
  fix x
  show "c_sin \<lparr>c_sin = sin_rn, c_cos = cos_rn, c_atan2 = atan2_rn\<rparr> (fneg x) =
      fneg (c_sin \<lparr>c_sin = sin_rn, c_cos = cos_rn, c_atan2 = atan2_rn\<rparr> x)"
    by (cases x) (simp_all add: rounded_minus)
qed

lemma haversine_sym:
  assumes "sin_odd L"
  shows "haversine L lat1 lon1 lat2 lon2 = haversine L lat2 lon2 lat1 lon1"
proof -
  have s: "c_sin L (fneg x) = fneg (c_sin L x)" for x
    using assms by (simp add: sin_odd_def)
  have u: "c_sin L (fdiv (fdiv (fmul (fsub a b) M_PI) (Fin 180)) (Fin 2)) =
      fneg (c_sin L (fdiv (fdiv (fmul (fsub b a) M_PI) (Fin 180)) (Fin 2)))" for a b
    by (subst fsub_swap [of a b]) (simp only: fmul_fneg fdiv_fneg s)
  have v: "fmul (fmul x (fneg w)) (fneg w) = fmul (fmul x w) w" for x w
  proof -
    have "fmul x (fneg w) = fneg (fmul x w)"
      by (simp only: fmul_commute [of x] fmul_fneg)
    moreover have "fmul y (fneg w) = fneg (fmul y w)" for y
      by (simp only: fmul_commute [of y] fmul_fneg)
    ultimately show ?thesis by (simp only: fmul_fneg fneg_fneg)
  qed
  have h: "fmul (c_sin L (fdiv (fdiv (fmul (fsub a b) M_PI) (Fin 180)) (Fin 2)))
        (c_sin L (fdiv (fdiv (fmul (fsub a b) M_PI) (Fin 180)) (Fin 2))) =
      fmul (c_sin L (fdiv (fdiv (fmul (fsub b a) M_PI) (Fin 180)) (Fin 2)))
        (c_sin L (fdiv (fdiv (fmul (fsub b a) M_PI) (Fin 180)) (Fin 2)))" for a b
    unfolding u [of a b] by (simp only: fmul_fneg_fneg)
  have t': "fmul (fmul (fmul c1 c2) (c_sin L (fdiv (fdiv (fmul (fsub a b) M_PI) (Fin 180)) (Fin 2))))
        (c_sin L (fdiv (fdiv (fmul (fsub a b) M_PI) (Fin 180)) (Fin 2))) =
      fmul (fmul (fmul c2 c1) (c_sin L (fdiv (fdiv (fmul (fsub b a) M_PI) (Fin 180)) (Fin 2))))
        (c_sin L (fdiv (fdiv (fmul (fsub b a) M_PI) (Fin 180)) (Fin 2)))" for a b c1 c2
    unfolding u [of a b] v by (simp only: fmul_commute [of c1 c2])
  show ?thesis
    unfolding haversine_def Let_def by (simp only: h [of lat2 lat1] t' [of _ _ lon2 lon1])
qed

section \<open>haversine_distance\<close>

lemma haversine_finite_mul:
  assumes "\<bar>lat\<bar> \<le> 2 ^ 1021"
  shows "\<exists>y. fmul (Fin lat) M_PI = Fin y"
proof -
  have "\<bar>lat * (884279719003555 / 2 ^ 48)\<bar> \<le> 2 ^ 1021 * 2 ^ 2"
    unfolding abs_mult by (rule mult_mono) (use assms in simp_all)
  then have "\<bar>lat * (884279719003555 / 2 ^ 48)\<bar> \<le> 2 ^ 1023"
    by (simp only: power_add [symmetric]) simp
  from rounded_finite [OF this] show ?thesis by (auto simp: M_PI_def)
qed

lemma rounded_Fin_bound: "rounded x = Fin y \<Longrightarrow> \<bar>y\<bar> < overflow_threshold"
  by (auto simp: rounded_def Let_def split: if_splits)

lemma haversine_zero:
  assumes ok: "libm_ok L" and y: "fmul (Fin lat) M_PI = Fin y"
  shows "haversine L (Fin lat) (Fin lon) (Fin lat) (Fin lon) = Fin 0"
proof -
  have s0: "c_sin L (Fin 0) = Fin 0" and a0: "c_atan2 L (Fin 0) (Fin 1) = Fin 0"
    using ok by (simp_all add: libm_ok_def)
  from y have "\<bar>y\<bar> < overflow_threshold"
    unfolding M_PI_def fmul.simps by (rule rounded_Fin_bound)
  then have "\<bar>y\<bar> \<le> 2 * 2 ^ 1023" by (simp add: overflow_threshold_def)
  then have "\<bar>y / 180\<bar> \<le> 2 ^ 1023" by simp
  from rounded_finite [OF this]
  obtain z where z: "fdiv (Fin y) (Fin 180) = Fin z" by auto
  obtain c where c: "c_cos L (Fin z) = Fin c" "\<bar>c\<bar> \<le> 1"
    using ok unfolding libm_ok_def by blast
  have "\<bar>c * c\<bar> \<le> 1"
    unfolding abs_mult using c(2) by (intro mult_le_one) simp_all
  then have "\<bar>c * c\<bar> \<le> 2 ^ 0" by simp
  from rounded_finite [OF this]
  obtain w where w: "fmul (Fin c) (Fin c) = Fin w" by auto
  show ?thesis
    unfolding haversine_def Let_def y z c(1) w
    by (simp add: fsub_def M_PI_def s0 a0)
qed

lemma haversine_NaN:
  assumes "libm_ok L"
  shows "haversine L NaN lon1 lat2 lon2 = NaN"
proof -
  have c: "c_cos L NaN = NaN" and a: "\<And>x. c_atan2 L NaN x = NaN"
    using assms by (simp_all add: libm_ok_def)
  show ?thesis
    unfolding haversine_def Let_def by (simp add: c a)
qed

lemma rounded_ex28: "rounded (39792587355159975 / 281474976710656) = Fin (4974073419394997 / 35184372088832)"
  by (rule rounded_evalI [where n = 45 and m = "4974073419394997"]) simp_all

lemma mul_pi_45: "fmul (Fin 45) M_PI = Fin (4974073419394997 / 35184372088832)"
  by (simp add: M_PI_def rounded_ex28)

text \<open>
  C5, as the code has it. The two orders of the arguments give the same double (the same
  error when an argument is not a pair of numbers, NaN alike), for every C library whose
  sine is odd. \<open>haversine_distance (a, a)\<close> is exactly \<open>0\<close> for every pair \<open>a\<close> of finite
  doubles whose latitude times \<^verbatim>\<open>M_PI\<close> is a finite double, which it is up to a magnitude
  of \<open>2 ^ 1021\<close> at least.
\<close>

theorem haversine_symmetric:
  "(sin_odd L \<longrightarrow> py_haversine_distance L p q = py_haversine_distance L q p) \<and>
   (libm_ok L \<and> fmul (Fin lat) M_PI = Fin y \<longrightarrow>
      py_haversine_distance L (Tuple2_d (Fin lat) (Fin lon)) (Tuple2_d (Fin lat) (Fin lon)) = Inr (Fin 0)) \<and>
   (\<bar>lat\<bar> \<le> 2 ^ 1021 \<longrightarrow> (\<exists>y. fmul (Fin lat) M_PI = Fin y))"
proof (intro conjI impI)
  assume "sin_odd L"
  then show "py_haversine_distance L p q = py_haversine_distance L q p"
    by (cases p; cases q) (simp_all add: py_haversine_distance_def haversine_sym)
next
  assume "libm_ok L \<and> fmul (Fin lat) M_PI = Fin y"
  then have "haversine L (Fin lat) (Fin lon) (Fin lat) (Fin lon) = Fin 0"
    by (intro haversine_zero) simp_all
  then show "py_haversine_distance L (Tuple2_d (Fin lat) (Fin lon)) (Tuple2_d (Fin lat) (Fin lon)) = Inr (Fin 0)"
    by (simp only: py_haversine_distance_def parse_dd_d.simps prod.case option.case)
next
  assume "\<bar>lat\<bar> \<le> 2 ^ 1021"
  then show "\<exists>y. fmul (Fin lat) M_PI = Fin y" by (rule haversine_finite_mul)
qed

theorem haversine_symmetric_witness:
  "sin_odd libm_rn \<and> libm_ok libm_rn \<and> \<bar>45 :: real\<bar> \<le> 2 ^ 1021 \<and>
   fmul (Fin 45) M_PI = Fin (4974073419394997 / 35184372088832) \<and>
   py_haversine_distance libm_rn (Tuple2_d (Fin 45) (Fin 7)) (Tuple2_d (Fin 45) (Fin 7)) = Inr (Fin 0) \<and>
   py_haversine_distance libm_rn (Tuple2_d (Fin 45) (Fin 7)) (Tuple2_d (Fin 46) (Fin 8)) =
     py_haversine_distance libm_rn (Tuple2_d (Fin 46) (Fin 8)) (Tuple2_d (Fin 45) (Fin 7))"
proof -
  have b: "\<bar>45 :: real\<bar> \<le> 2 ^ 1021"
    using power_increasing [of 6 1021 "2 :: real"] by simp
  from haversine_symmetric [of libm_rn "Tuple2_d (Fin 45) (Fin 7)" "Tuple2_d (Fin 46) (Fin 8)" 45
      "4974073419394997 / 35184372088832" 7]
    libm_rn_ok libm_rn_sin_odd b mul_pi_45
  show ?thesis by blast
qed

text \<open>
  C5 as stated fails where the pair holds NaN, which goes through the arithmetic to the
  result, and where the latitude is a finite double so large that \<^verbatim>\<open>lat1 * M_PI\<close>
  overflows: the product is infinite, its cosine is NaN, and so is the distance from the
  pair to itself. Here the latitude is \<open>2 ^ 1023\<close>, about \<^verbatim>\<open>8.99e307\<close>.
\<close>

theorem haversine_symmetric_counterexample:
  "py_haversine_distance libm_rn (Tuple2_d NaN (Fin 0)) (Tuple2_d NaN (Fin 0)) = Inr NaN \<and>
   py_haversine_distance libm_rn (Tuple2_d (Fin (2 ^ 1023)) (Fin 0)) (Tuple2_d (Fin (2 ^ 1023)) (Fin 0)) =
     Inr NaN \<and>
   Inr NaN \<noteq> (Inr (Fin 0) :: error + double)"
  by (simp only: py_haversine_distance_def parse_dd_d.simps prod.case option.case
      haversine_overflow [OF libm_rn_ok] haversine_NaN [OF libm_rn_ok]) simp

text \<open>
  C7 fails on the code. For the finite doubles \<open>(2 ^ 1023, 0)\<close> and \<open>(0, 0)\<close> the product
  \<^verbatim>\<open>lat1 * M_PI\<close> overflows to infinity, \<^verbatim>\<open>cos\<close> of it is NaN, and the function returns NaN
  where the claim promises a non-negative number.
\<close>

theorem haversine_overflow_nan:
  "py_haversine_distance libm_rn (Tuple2_d (Fin (2 ^ 1023)) (Fin 0)) (Tuple2_d (Fin 0) (Fin 0)) = Inr NaN"
  by (simp only: py_haversine_distance_def parse_dd_d.simps prod.case option.case
      haversine_overflow [OF libm_rn_ok])

section \<open>Degenerate rings\<close>

text \<open>
  C4. A ring with fewer than three elements is answered before any element is read:
  \<open>polygon_area\<close> returns \<open>0.0\<close> and \<open>point_in_polygon\<close> returns \<open>False\<close> for every
  test point, and neither raises, whatever the elements are.
\<close>

theorem degenerate_ring:
  "length seq < 3 \<Longrightarrow>
     py_polygon_area seq = Inr 0 \<and>
     py_point_in_polygon (Tuple2 lat lon) seq = Inr False"
  by (simp add: py_polygon_area_def py_point_in_polygon_def)

theorem degenerate_ring_witness:
  "length [Tuple2 1 2, Other] < 3 \<and>
   py_polygon_area [Tuple2 1 2, Other] = Inr 0 \<and>
   py_point_in_polygon (Tuple2 5 7) [Tuple2 1 2, Other] = Inr False"
  using degenerate_ring [of "[Tuple2 1 2, Other]" 5 7] by simp

section \<open>point_in_polygon\<close>

subsection \<open>The loop counts the crossing edges\<close>

lemma parse_dd_tuple_of [simp]: "parse_dd (tuple_of p) = Some p"
  by (simp add: tuple_of_def)

lemma parse_dd_None: "parse_dd x = None \<longleftrightarrow> x = Other"
  by (cases x) auto

lemma pip_loop_step:
  assumes "i < length seq" "parse_dd (seq ! i) = Some p1"
    "parse_dd (seq ! ((i + 1) mod length seq)) = Some p2"
  shows "pip_loop lat lon seq i inside = pip_loop lat lon seq (i + 1) (inside \<noteq> crossing lat lon p1 p2)"
proof -
  obtain lat1 lon1 where p1: "p1 = (lat1, lon1)" by (cases p1)
  obtain lat2 lon2 where p2: "p2 = (lat2, lon2)" by (cases p2)
  have "(if (lon1 > lon) \<noteq> (lon2 > lon) then
           (let intersect = (lat2 - lat1) * (lon - lon1) / (lon2 - lon1 + 1 / 10 ^ 12) + lat1
            in if lat < intersect then \<not> inside else inside)
         else inside) = (inside \<noteq> crossing lat lon p1 p2)"
    by (auto simp: crossing_def p1 p2 Let_def)
  then show ?thesis
    using assms by (subst pip_loop.simps) (simp add: p1 p2)
qed

lemma pip_loop_fail:
  assumes "i < length seq" "parse_dd (seq ! i) = None \<or> parse_dd (seq ! ((i + 1) mod length seq)) = None"
  shows "pip_loop lat lon seq i inside = Inl ArgumentError"
  using assms by (subst pip_loop.simps) (auto split: option.splits)

lemma pip_loop_done: "\<not> i < length seq \<Longrightarrow> pip_loop lat lon seq i inside = Inr inside"
  by (subst pip_loop.simps) simp

lemma pip_loop_Other:
  "i \<le> j \<Longrightarrow> j < length seq \<Longrightarrow> seq ! j = Other \<Longrightarrow> pip_loop lat lon seq i inside = Inl ArgumentError"
proof (induction "j - i" arbitrary: i inside)
  case 0
  then have "i = j" by simp
  with 0 show ?case by (simp add: pip_loop_fail)
next
  case (Suc d)
  then have lt: "i < length seq" and ih: "pip_loop lat lon seq (i + 1) b = Inl ArgumentError" for b
    by auto
  show ?case
  proof (cases "parse_dd (seq ! i) = None \<or> parse_dd (seq ! ((i + 1) mod length seq)) = None")
    case True
    with lt show ?thesis by (rule pip_loop_fail)
  next
    case False
    then obtain p1 p2 where "parse_dd (seq ! i) = Some p1" "parse_dd (seq ! ((i + 1) mod length seq)) = Some p2"
      by auto
    from pip_loop_step [OF lt this] ih show ?thesis by simp
  qed
qed

lemma pip_loop_tuples:
  "pip_loop lat lon (map tuple_of ps) i inside =
     Inr (inside \<noteq> odd (length (filter (\<lambda>j. crossing lat lon (ps ! j) (ps ! ((j + 1) mod length ps))) [i..<length ps])))"
proof (induction "length ps - i" arbitrary: i inside)
  case 0
  then show ?case by (simp add: pip_loop_done)
next
  case (Suc d)
  then have lt: "i < length ps" by simp
  then have m: "(i + 1) mod length ps < length ps" by (intro mod_less_divisor) auto
  have u: "[i..<length ps] = i # [i + 1..<length ps]" using lt by (simp add: upt_conv_Cons)
  have "pip_loop lat lon (map tuple_of ps) i inside =
     pip_loop lat lon (map tuple_of ps) (i + 1) (inside \<noteq> crossing lat lon (ps ! i) (ps ! ((i + 1) mod length ps)))"
    using lt m by (intro pip_loop_step) simp_all
  also have "\<dots> = Inr ((inside \<noteq> crossing lat lon (ps ! i) (ps ! ((i + 1) mod length ps))) \<noteq>
      odd (length (filter (\<lambda>j. crossing lat lon (ps ! j) (ps ! ((j + 1) mod length ps))) [i + 1..<length ps])))"
    using Suc by (intro Suc.hyps) simp
  finally show ?case by (subst u) auto
qed

lemma edges_zip:
  "map (\<lambda>j. (ps ! j, ps ! ((j + 1) mod length ps))) [0..<length ps] = zip ps (rotate1 ps)"
  by (rule nth_equalityI) (simp_all add: nth_rotate1)

lemma crossings_index:
  "length (filter (\<lambda>j. crossing lat lon (ps ! j) (ps ! ((j + 1) mod length ps))) [0..<length ps]) =
   crossings lat lon ps"
proof -
  have "crossings lat lon ps =
    length (filter (\<lambda>(p1, p2). crossing lat lon p1 p2)
       (map (\<lambda>j. (ps ! j, ps ! ((j + 1) mod length ps))) [0..<length ps]))"
    by (simp only: crossings_def edges_zip)
  also have "\<dots> = length (filter (\<lambda>j. crossing lat lon (ps ! j) (ps ! ((j + 1) mod length ps))) [0..<length ps])"
    by (simp add: filter_map comp_def)
  finally show ?thesis by simp
qed

lemma tuples_or_Other: "Other \<in> set seq \<or> (\<exists>ps. seq = map tuple_of ps)"
proof (induction seq)
  case Nil
  then show ?case by simp
next
  case (Cons x seq)
  show ?case
  proof (cases x)
    case (Tuple2 a b)
    then have "x = tuple_of (a, b)" by (simp add: tuple_of_def)
    with Cons show ?thesis by (metis list.set_intros(2) list.simps(9))
  next
    case Other
    then show ?thesis by simp
  qed
qed

lemma pip_Other:
  assumes "Other \<in> set seq" "3 \<le> length seq"
  shows "py_point_in_polygon (Tuple2 lat lon) seq = Inl ArgumentError"
proof -
  from assms obtain j where "j < length seq" "seq ! j = Other" by (auto simp: in_set_conv_nth)
  then have "pip_loop lat lon seq 0 False = Inl ArgumentError" by (intro pip_loop_Other [of 0 j]) simp_all
  with assms show ?thesis by (simp add: py_point_in_polygon_def)
qed

lemma pip_tuples:
  "py_point_in_polygon (Tuple2 lat lon) (map tuple_of ps) =
     Inr (3 \<le> length ps \<and> odd (crossings lat lon ps))"
  unfolding py_point_in_polygon_def pip_loop_tuples crossings_index by simp

text \<open>
  C6. For the square ring \<open>[(0,0), (0,1), (1,1), (1,0)]\<close> of \<open>(lat, lon)\<close> pairs the point
  \<open>(0.5, 0.5)\<close> is inside and the point \<open>(2, 2)\<close> is outside; and on every ring of
  coordinate pairs the answer is the even-odd rule over the edges of the closed ring,
  with the crossing latitude
  \<open>(p2.lat - p1.lat) * (lon - p1.lon) / (p2.lon - p1.lon + 1e-12) + p1.lat\<close>.
\<close>

theorem square_ring_inside_outside:
  "py_point_in_polygon (Tuple2 0.5 0.5) [Tuple2 0 0, Tuple2 0 1, Tuple2 1 1, Tuple2 1 0] = Inr True \<and>
   py_point_in_polygon (Tuple2 2 2) [Tuple2 0 0, Tuple2 0 1, Tuple2 1 1, Tuple2 1 0] = Inr False \<and>
   py_point_in_polygon (Tuple2 lat lon) (map tuple_of ps) =
     Inr (3 \<le> length ps \<and> odd (crossings lat lon ps)) \<and>
   crossing lat lon (lat1, lon1) (lat2, lon2) =
     ((lon1 > lon) \<noteq> (lon2 > lon) \<and>
      lat < (lat2 - lat1) * (lon - lon1) / (lon2 - lon1 + 1 / 10 ^ 12) + lat1)"
proof (intro conjI)
  show "py_point_in_polygon (Tuple2 0.5 0.5) [Tuple2 0 0, Tuple2 0 1, Tuple2 1 1, Tuple2 1 0] = Inr True"
    by (simp add: py_point_in_polygon_def pip_loop.simps)
  show "py_point_in_polygon (Tuple2 2 2) [Tuple2 0 0, Tuple2 0 1, Tuple2 1 1, Tuple2 1 0] = Inr False"
    by (simp add: py_point_in_polygon_def pip_loop.simps)
  show "py_point_in_polygon (Tuple2 lat lon) (map tuple_of ps) =
     Inr (3 \<le> length ps \<and> odd (crossings lat lon ps))"
    by (rule pip_tuples)
  show "crossing lat lon (lat1, lon1) (lat2, lon2) =
     ((lon1 > lon) \<noteq> (lon2 > lon) \<and>
      lat < (lat2 - lat1) * (lon - lon1) / (lon2 - lon1 + 1 / 10 ^ 12) + lat1)"
    by (simp add: crossing_def)
qed

subsection \<open>Rotating the ring\<close>

lemma zip_rotate1: "length xs = length ys \<Longrightarrow> zip (rotate1 xs) (rotate1 ys) = rotate1 (zip xs ys)"
  by (cases xs; cases ys) simp_all

lemma zip_rotate: "length xs = length ys \<Longrightarrow> zip (rotate k xs) (rotate k ys) = rotate k (zip xs ys)"
  by (induction k) (simp_all add: zip_rotate1)

lemma length_filter_rotate1: "length (filter P (rotate1 xs)) = length (filter P xs)"
  by (cases xs) simp_all

lemma length_filter_rotate: "length (filter P (rotate k xs)) = length (filter P xs)"
  by (induction k) (simp_all add: length_filter_rotate1)

lemma crossings_rotate: "crossings lat lon (rotate k ps) = crossings lat lon ps"
proof -
  have "zip (rotate k ps) (rotate1 (rotate k ps)) = rotate k (zip ps (rotate1 ps))"
    by (simp add: rotate1_rotate_swap zip_rotate)
  then show ?thesis by (simp add: crossings_def length_filter_rotate)
qed

text \<open>
  C10. \<open>point_in_polygon\<close> returns the same result when the ring's vertex list is rotated
  cyclically: the closed ring has the same edges, so the same number of them cross. It
  holds for every test point and every ring, also the degenerate ones and the ones on
  which the call fails.
\<close>

theorem point_in_polygon_rotate: "py_point_in_polygon pt (rotate k seq) = py_point_in_polygon pt seq"
proof (cases pt)
  case Other
  then show ?thesis by (simp add: py_point_in_polygon_def)
next
  case (Tuple2 lat lon)
  show ?thesis
  proof (cases "length seq < 3")
    case True
    then show ?thesis by (simp add: py_point_in_polygon_def Tuple2)
  next
    case False
    from tuples_or_Other [of seq] show ?thesis
    proof
      assume "Other \<in> set seq"
      with False show ?thesis by (simp add: Tuple2 pip_Other)
    next
      assume "\<exists>ps. seq = map tuple_of ps"
      then obtain ps where "seq = map tuple_of ps" ..
      then show ?thesis by (simp add: Tuple2 rotate_map pip_tuples crossings_rotate)
    qed
  qed
qed

section \<open>polygon_area\<close>

subsection \<open>The loops compute the sums\<close>











subsection \<open>The formula of the specification\<close>





subsection \<open>Rotating and reversing the ring\<close>












subsection \<open>Rotating the ring in double arithmetic\<close>






























section \<open>parse_coords\<close>

subsection \<open>One pass of the loop, and that the loop ends\<close>

lemma parse_loop_done:
  "dropWhile isspace p = [] \<Longrightarrow> parse_loop strtod p lst = Some lst"
  by (subst parse_loop.simps) (simp add: Let_def)

lemma parse_loop_step:
  assumes "dropWhile isspace p \<noteq> []"
  shows "parse_loop strtod p lst =
     parse_loop strtod (dropWhile (\<lambda>c. \<not> isspace c) (item_end strtod (dropWhile isspace p)))
       (lst @ [coord_at strtod (dropWhile isspace p)])"
proof -
  define q where "q = dropWhile isspace p"
  define p2 where "p2 = lat_field strtod q"
  define p3 where "p3 = drop (snd (strtod p2)) p2"
  obtain lon k1 where s1: "strtod q = (lon, k1)" by (cases "strtod q")
  obtain lat k2 where s2: "strtod p2 = (lat, k2)" by (cases "strtod p2")
  obtain alt k3 where s3: "strtod (tl p3) = (alt, k3)" by (cases "strtod (tl p3)")
  have l: "(if drop k1 q \<noteq> [] \<and> hd (drop k1 q) = CHR '','' then tl (drop k1 q) else drop k1 q) = p2"
    by (simp add: p2_def lat_field_def s1)
  have d: "drop k2 p2 = p3" by (simp add: p3_def s2)
  have e: "item_end strtod q = (if p3 \<noteq> [] \<and> hd p3 = CHR '','' then drop k3 (tl p3) else p3)"
    unfolding item_end_def Let_def p2_def [symmetric] p3_def [symmetric] s3 by simp
  have c: "coord_at strtod q = (lat, lon)"
    by (simp add: coord_at_def p2_def [symmetric] s1 s2)
  from assms have "p \<noteq> []" by auto
  with assms show ?thesis
    unfolding q_def [symmetric]
    by (subst parse_loop.simps) (simp only: Let_def q_def [symmetric] s1 s2 s3 l d e c prod.case if_True if_False not_False_eq_True)
qed

lemma tl_drop_Suc: "tl (drop n p) = drop (Suc n) p"
  by (simp add: drop_Suc tl_drop)

lemma lat_field_drop: "\<exists>m. lat_field strtod p = drop m p"
  unfolding lat_field_def Let_def tl_drop_Suc by (cases "drop (snd (strtod p)) p \<noteq> [] \<and> hd (drop (snd (strtod p)) p) = CHR '','' ") auto

lemma item_end_drop: "\<exists>m. item_end strtod p = drop m p"
proof -
  obtain m where m: "lat_field strtod p = drop m p" using lat_field_drop by blast
  define p3 where "p3 = drop (snd (strtod (drop m p))) (drop m p)"
  have p3: "p3 = drop (snd (strtod (drop m p)) + m) p" by (simp add: p3_def)
  have e: "item_end strtod p = (if p3 \<noteq> [] \<and> hd p3 = CHR '','' then drop (snd (strtod (tl p3))) (tl p3) else p3)"
    unfolding item_end_def Let_def m p3_def [symmetric] by simp
  show ?thesis
  proof (cases "p3 \<noteq> [] \<and> hd p3 = CHR '',''")
    case True
    then have "item_end strtod p = drop (snd (strtod (tl p3))) (drop (Suc (snd (strtod (drop m p)) + m)) p)"
      by (simp add: e) (simp add: p3 tl_drop_Suc)
    then show ?thesis by (metis drop_drop)
  next
    case False
    then have "item_end strtod p = p3" by (auto simp: e)
    then show ?thesis using p3 by blast
  qed
qed

lemma skip_shorter:
  assumes "q \<noteq> []" "\<not> isspace (hd q)"
  shows "length (dropWhile (\<lambda>c. \<not> isspace c) (drop m q)) < length q"
proof (cases m)
  case 0
  with assms show ?thesis by (cases q) (auto simp: length_dropWhile_le le_imp_less_Suc)
next
  case (Suc k)
  have "length (dropWhile (\<lambda>c. \<not> isspace c) (drop m q)) \<le> length (drop m q)"
    by (rule length_dropWhile_le)
  also have "\<dots> < length q" using assms Suc by (cases q) auto
  finally show ?thesis .
qed

lemma next_shorter:
  assumes "dropWhile isspace p \<noteq> []"
  shows "length (dropWhile (\<lambda>c. \<not> isspace c) (item_end strtod (dropWhile isspace p))) < length p"
proof -
  let ?q = "dropWhile isspace p"
  obtain m where m: "item_end strtod ?q = drop m ?q" using item_end_drop by blast
  have "\<not> isspace (hd ?q)" using assms by (rule hd_dropWhile)
  with assms have "length (dropWhile (\<lambda>c. \<not> isspace c) (drop m ?q)) < length ?q"
    by (rule skip_shorter)
  also have "\<dots> \<le> length p" by (rule length_dropWhile_le)
  finally show ?thesis by (simp add: m)
qed

lemma parse_loop_total: "\<exists>r. parse_loop strtod p lst = Some r"
proof (induction "length p" arbitrary: p lst rule: less_induct)
  case less
  show ?case
  proof (cases "dropWhile isspace p = []")
    case True
    then show ?thesis by (simp add: parse_loop_done)
  next
    case False
    from less [OF next_shorter [OF False], of strtod "lst @ [coord_at strtod (dropWhile isspace p)]"]
      parse_loop_step [OF False, of strtod lst]
    show ?thesis by simp
  qed
qed



subsection \<open>The decimal strtod stays inside a number\<close>

lemma numchar_not_sep: "numchar c \<Longrightarrow> \<not> isspace c \<and> c \<noteq> CHR '',''"
  by (auto simp: numchar_def isdigit_def isspace_def)

lemma pre_comp:
  assumes "a @ drop (length a) s = s" "b @ drop (length b) (drop (length a) s) = drop (length a) s"
  shows "(a @ b) @ drop (length (a @ b)) s = s"
proof -
  have "(a @ b) @ drop (length (a @ b)) s = a @ (b @ drop (length b) (drop (length a) s))"
    by (simp add: add.commute)
  also have "\<dots> = a @ drop (length a) s" by (simp only: assms(2))
  also have "\<dots> = s" by (rule assms(1))
  finally show ?thesis .
qed

lemma digits_pre: "takeWhile isdigit s @ drop (length (takeWhile isdigit s)) s = s"
  by (simp add: dropWhile_eq_drop [symmetric])

lemma sign_of_pre: "sign_of s @ drop (length (sign_of s)) s = s"
  by (cases s) (auto simp: sign_of_def)

lemma sign_of_chars: "c \<in> set (sign_of s) \<Longrightarrow> numchar c"
  by (auto simp: sign_of_def numchar_def split: if_splits)

lemma digits_chars: "c \<in> set (takeWhile isdigit s) \<Longrightarrow> numchar c"
  by (auto simp: numchar_def dest: set_takeWhileD)

lemma frac_of_pre: "frac_of s @ drop (length (frac_of s)) s = s"
proof (cases s)
  case Nil
  then show ?thesis by (simp add: frac_of_def)
next
  case (Cons c cs)
  then show ?thesis using digits_pre [of cs] by (simp add: frac_of_def)
qed

lemma frac_of_chars: "c \<in> set (frac_of s) \<Longrightarrow> numchar c"
  by (auto simp: frac_of_def numchar_def split: if_splits dest: set_takeWhileD)

lemma exp_of_pre: "exp_of s @ drop (length (exp_of s)) s = s"
proof (cases "exp_of s = []")
  case True
  then show ?thesis by simp
next
  case False
  then obtain c cs where s: "s = c # cs" by (cases s) (auto simp: exp_of_def)
  let ?sg = "sign_of cs"
  let ?ds = "takeWhile isdigit (drop (length ?sg) cs)"
  from False have e: "exp_of s = c # ?sg @ ?ds"
    by (auto simp: exp_of_def s Let_def split: if_splits)
  have "(?sg @ ?ds) @ drop (length (?sg @ ?ds)) cs = cs"
    using sign_of_pre digits_pre by (rule pre_comp)
  then show ?thesis unfolding e by (simp add: s)
qed

lemma exp_of_chars:
  assumes "c \<in> set (exp_of s)"
  shows "numchar c"
proof (cases "exp_of s = []")
  case True
  with assms show ?thesis by simp
next
  case False
  then obtain d cs where s: "s = d # cs" by (cases s) (auto simp: exp_of_def)
  from False have d: "d = CHR ''e'' \<or> d = CHR ''E''"
    by (auto simp: exp_of_def s split: if_splits)
  from False have e: "exp_of s = d # sign_of cs @ takeWhile isdigit (drop (length (sign_of cs)) cs)"
    by (auto simp: exp_of_def s Let_def split: if_splits)
  from assms have "c = d \<or> c \<in> set (sign_of cs) \<or> c \<in> set (takeWhile isdigit (drop (length (sign_of cs)) cs))"
    by (simp add: e)
  then show ?thesis using d sign_of_chars digits_chars by (auto simp: numchar_def)
qed

lemma subject_pre: "subject s1 @ drop (length (subject s1)) s1 = s1"
proof -
  let ?sg = "sign_of s1"
  let ?s2 = "drop (length ?sg) s1"
  let ?ip = "takeWhile isdigit ?s2"
  let ?s3 = "drop (length ?ip) ?s2"
  let ?fr = "frac_of ?s3"
  let ?s4 = "drop (length ?fr) ?s3"
  let ?ex = "exp_of ?s4"
  have 1: "(?fr @ ?ex) @ drop (length (?fr @ ?ex)) ?s3 = ?s3"
    using frac_of_pre exp_of_pre by (rule pre_comp)
  have 2: "(?ip @ ?fr @ ?ex) @ drop (length (?ip @ ?fr @ ?ex)) ?s2 = ?s2"
    using digits_pre 1 by (rule pre_comp)
  have 3: "(?sg @ ?ip @ ?fr @ ?ex) @ drop (length (?sg @ ?ip @ ?fr @ ?ex)) s1 = s1"
    using sign_of_pre 2 by (rule pre_comp)
  have "subject s1 = ?sg @ ?ip @ ?fr @ ?ex"
    by (simp only: subject_def Let_def dropWhile_eq_drop)
  with 3 show ?thesis by simp
qed

lemma subject_chars: "c \<in> set (subject s1) \<Longrightarrow> numchar c"
  unfolding subject_def Let_def set_append Un_iff
  using sign_of_chars digits_chars frac_of_chars exp_of_chars by blast

lemma strtod_dec_consumed:
  "snd (strtod_dec s) = 0 \<or>
   snd (strtod_dec s) = length (takeWhile isspace s) + length (subject (dropWhile isspace s))"
  unfolding strtod_dec_def subject_def Let_def by simp

lemma strtod_dec_le: "snd (strtod_dec s) \<le> length s"
proof -
  let ?w = "takeWhile isspace s" and ?s1 = "dropWhile isspace s"
  have "length (subject ?s1) \<le> length (subject ?s1 @ drop (length (subject ?s1)) ?s1)"
    by (simp only: length_append)
  then have "length (subject ?s1) \<le> length ?s1" by (simp only: subject_pre)
  moreover have "length ?w + length ?s1 = length s"
    by (simp only: length_append [symmetric] takeWhile_dropWhile_id)
  ultimately show ?thesis
    using strtod_dec_consumed [of s] by linarith
qed

lemma strtod_dec_chars:
  assumes s: "s \<noteq> []" "\<not> isspace (hd s)" and c: "c \<in> set (take (snd (strtod_dec s)) s)"
  shows "numchar c"
proof -
  from s have ws: "takeWhile isspace s = []" "dropWhile isspace s = s" by (cases s; simp)+
  have "take (length (subject s)) s = take (length (subject s)) (subject s @ drop (length (subject s)) s)"
    by (simp only: subject_pre)
  then have t: "take (length (subject s)) s = subject s" by simp
  from strtod_dec_consumed [of s] have "snd (strtod_dec s) = 0 \<or> snd (strtod_dec s) = length (subject s)"
    by (simp add: ws)
  then have "take (snd (strtod_dec s)) s = [] \<or> take (snd (strtod_dec s)) s = subject s"
    using t by auto
  with c show "numchar c" by (auto dest: subject_chars)
qed

lemma strtod_dec_local: "strtod_local strtod_dec"
  unfolding strtod_local_def using strtod_dec_le strtod_dec_chars numchar_not_sep by blast

lemmas strtod_dec_eval = strtod_dec_def isspace_def isdigit_def sign_of_def frac_of_def exp_of_def
    digits_val_def digit_val_def signed_def Let_def






subsection \<open>Empty and blank input\<close>

text \<open>
  C9. \<open>parse_coords\<close> returns on every string, whatever \<^verbatim>\<open>strtod\<close> reads in it: the loop
  ends and there is no failing branch. On the empty string and on a string of white space
  only it returns the empty list.
\<close>

theorem parse_coords_total:
  "(\<exists>r. parse_coords strtod s = Some r) \<and>
   ((\<forall>c \<in> set s. isspace c) \<longrightarrow> parse_coords strtod s = Some [])"
proof
  show "\<exists>r. parse_coords strtod s = Some r"
    unfolding parse_coords_def by (rule parse_loop_total)
  show "(\<forall>c \<in> set s. isspace c) \<longrightarrow> parse_coords strtod s = Some []"
    by (simp add: parse_coords_def parse_loop_done)
qed

theorem parse_coords_total_witness:
  "isspace (CHR '' '') \<and> isspace (CHR 0x0A) \<and>
   parse_coords strtod_dec [CHR '' '', CHR 0x0A, CHR '' ''] = Some [] \<and>
   parse_coords strtod_dec [] = Some []"
  using parse_coords_total [of strtod_dec "[CHR '' '', CHR 0x0A, CHR '' '']"]
    parse_coords_total [of strtod_dec "[]"]
  by (simp add: isspace_def)

subsection \<open>The passes of the loop and the tokens\<close>

lemma strtod_local_le: "strtod_local strtod \<Longrightarrow> snd (strtod s) \<le> length s"
  unfolding strtod_local_def by blast

lemma strtod_local_take:
  "strtod_local strtod \<Longrightarrow> s \<noteq> [] \<Longrightarrow> \<not> isspace (hd s) \<Longrightarrow> c \<in> set (take (snd (strtod s)) s) \<Longrightarrow>
     \<not> isspace c \<and> c \<noteq> CHR '',''"
  unfolding strtod_local_def by blast

lemma skip_token_drop:
  assumes "j \<le> length (takeWhile nonspace q)"
  shows "dropWhile nonspace (drop j q) = dropWhile nonspace q"
proof -
  let ?t = "takeWhile nonspace q" and ?r = "dropWhile nonspace q"
  have "drop j q = drop j (?t @ ?r)" by simp
  also have "\<dots> = drop j ?t @ ?r" unfolding drop_append using assms by simp
  finally have "dropWhile nonspace (drop j q) = dropWhile nonspace (drop j ?t @ ?r)" by simp
  also have "\<dots> = dropWhile nonspace ?r"
    by (rule dropWhile_append2) (auto dest: in_set_dropD set_takeWhileD)
  finally show ?thesis by simp
qed

lemma prefix_le_takeWhile:
  "k \<le> length u \<Longrightarrow> \<forall>c \<in> set (take k u). P c \<Longrightarrow> k \<le> length (takeWhile P u)"
proof (induction u arbitrary: k)
  case Nil
  then show ?case by simp
next
  case (Cons c u)
  then show ?case by (cases k) auto
qed

lemma takeWhile_drop:
  "m \<le> length (takeWhile P q) \<Longrightarrow> takeWhile P (drop m q) = drop m (takeWhile P q)"
proof (induction q arbitrary: m)
  case Nil
  then show ?case by simp
next
  case (Cons c q)
  then show ?case by (cases m) (auto split: if_splits)
qed

lemma nth_token:
  "m < length (takeWhile P q) \<Longrightarrow> drop m q \<noteq> [] \<and> hd (drop m q) = takeWhile P q ! m \<and> P (takeWhile P q ! m)"
proof -
  assume m: "m < length (takeWhile P q)"
  have "length (takeWhile P q) \<le> length q" by (rule length_takeWhile_le)
  with m have lt: "m < length q" by simp
  then have "hd (drop m q) = q ! m" by (simp add: hd_drop_conv_nth)
  also have "\<dots> = takeWhile P q ! m" using m by (simp add: takeWhile_nth)
  finally show ?thesis using lt m by (auto dest: nth_mem set_takeWhileD)
qed

lemma local_bound:
  assumes loc: "strtod_local strtod" and m: "m < length (takeWhile nonspace q)"
  shows "m + snd (strtod (drop m q)) \<le> length (takeWhile nonspace q)"
proof -
  let ?u = "drop m q" and ?k = "snd (strtod (drop m q))"
  from nth_token [OF m] have u: "?u \<noteq> []" "\<not> isspace (hd ?u)" by auto
  have "?k \<le> length ?u" using loc by (rule strtod_local_le)
  moreover have "\<forall>c \<in> set (take ?k ?u). nonspace c"
    using strtod_local_take [OF loc u] by blast
  ultimately
  have "?k \<le> length (takeWhile nonspace ?u)" by (rule prefix_le_takeWhile)
  also have "\<dots> = length (takeWhile nonspace q) - m" using m by (simp add: takeWhile_drop)
  finally show ?thesis using m by simp
qed

lemma local_first:
  assumes loc: "strtod_local strtod" and q: "q \<noteq> []" "\<not> isspace (hd q)"
    and comma: "CHR '','' \<in> set (takeWhile nonspace q)"
  shows "snd (strtod q) < length (takeWhile nonspace q)"
proof -
  let ?t = "takeWhile nonspace q" and ?k = "snd (strtod q)"
  from q have "0 < length ?t" by (cases q) auto
  from local_bound [OF loc this] have le: "?k \<le> length ?t" by simp
  have "?k \<noteq> length ?t"
  proof
    assume eq: "?k = length ?t"
    have "take ?k q = ?t" unfolding eq by (simp add: takeWhile_eq_take [symmetric])
    then have "CHR '','' \<in> set (take ?k q)" using comma by simp
    with strtod_local_take [OF loc q] show False by blast
  qed
  with le show ?thesis by simp
qed

lemma skip_comma_bound:
  assumes m: "m < length t" and last: "last t \<noteq> CHR '',''" and c: "t ! m = CHR '',''"
  shows "Suc m < length t"
proof -
  from m have "t \<noteq> []" by auto
  then have "last t = t ! (length t - 1)" by (rule last_conv_nth)
  with last c have "m \<noteq> length t - 1" by auto
  with m show ?thesis by simp
qed

lemma comma_not_space: "\<not> isspace (CHR '','')"
  by (simp add: isspace_def)

lemma item_end_in_token:
  assumes loc: "strtod_local strtod" and q: "q \<noteq> []" "\<not> isspace (hd q)"
    and comma: "CHR '','' \<in> set (takeWhile nonspace q)"
    and last: "last (takeWhile nonspace q) \<noteq> CHR '',''"
  shows "\<exists>j \<le> length (takeWhile nonspace q). item_end strtod q = drop j q"
proof -
  let ?t = "takeWhile nonspace q"
  define k1 where "k1 = snd (strtod q)"
  have k1: "k1 < length ?t" unfolding k1_def using loc q comma by (rule local_first)
  note h1 = nth_token [OF k1]
  define m2 where "m2 = (if ?t ! k1 = CHR '','' then Suc k1 else k1)"
  have m2: "m2 < length ?t"
    using k1 skip_comma_bound [OF k1 last] by (simp add: m2_def)
  have lf: "lat_field strtod q = drop m2 q"
    using h1 by (simp add: lat_field_def Let_def k1_def [symmetric] m2_def tl_drop_Suc)
  define k2 where "k2 = snd (strtod (drop m2 q))"
  have b2: "m2 + k2 \<le> length ?t" unfolding k2_def using loc m2 by (rule local_bound)
  define p3 where "p3 = drop (m2 + k2) q"
  have e: "item_end strtod q = (if p3 \<noteq> [] \<and> hd p3 = CHR '','' then drop (snd (strtod (tl p3))) (tl p3) else p3)"
    unfolding item_end_def Let_def lf k2_def [symmetric] drop_drop add.commute [of k2 m2] p3_def [symmetric] by simp
  show ?thesis
  proof (cases "p3 \<noteq> [] \<and> hd p3 = CHR '',''")
    case False
    then have "item_end strtod q = drop (m2 + k2) q" by (auto simp: e p3_def)
    with b2 show ?thesis by blast
  next
    case True
    have lt: "m2 + k2 < length ?t"
    proof (rule ccontr)
      assume "\<not> m2 + k2 < length ?t"
      with b2 have "m2 + k2 = length ?t" by simp
      then have "p3 = dropWhile nonspace q" by (simp add: p3_def dropWhile_eq_drop)
      with True have "dropWhile nonspace q \<noteq> []" "hd (dropWhile nonspace q) = CHR '',''" by auto
      with hd_dropWhile [of nonspace q] comma_not_space show False by auto
    qed
    from nth_token [OF lt] True have "?t ! (m2 + k2) = CHR '',''" by (simp add: p3_def)
    with lt last have m3: "Suc (m2 + k2) < length ?t" by (intro skip_comma_bound)
    have tl3: "tl p3 = drop (Suc (m2 + k2)) q" by (simp add: p3_def tl_drop_Suc)
    from local_bound [OF loc m3]
    have "Suc (m2 + k2) + snd (strtod (tl p3)) \<le> length ?t" by (simp add: tl3)
    moreover have "item_end strtod q = drop (Suc (m2 + k2) + snd (strtod (tl p3))) q"
      using True by (simp add: e) (simp add: tl3 add.commute)
    ultimately show ?thesis by blast
  qed
qed

lemma token_starts_Nil: "dropWhile isspace s = [] \<Longrightarrow> token_starts s = []"
  by (subst token_starts.simps) simp

lemma token_starts_Cons:
  "dropWhile isspace s \<noteq> [] \<Longrightarrow>
     token_starts s = dropWhile isspace s # token_starts (dropWhile nonspace (dropWhile isspace s))"
  by (subst token_starts.simps) (simp add: Let_def)

lemma parse_loop_tokens:
  assumes loc: "strtod_local strtod"
  shows "\<forall>t \<in> set (tokens p). CHR '','' \<in> set t \<and> last t \<noteq> CHR '','' \<Longrightarrow>
    parse_loop strtod p lst = Some (lst @ map (coord_at strtod) (token_starts p))"
proof (induction "length p" arbitrary: p lst rule: less_induct)
  case less
  let ?q = "dropWhile isspace p"
  show ?case
  proof (cases "?q = []")
    case True
    then show ?thesis by (simp add: parse_loop_done token_starts_Nil)
  next
    case False
    let ?r = "dropWhile nonspace ?q"
    note ts = token_starts_Cons [OF False]
    from False have hd: "\<not> isspace (hd ?q)" by (rule hd_dropWhile)
    from less.prems have tok: "CHR '','' \<in> set (takeWhile nonspace ?q)" "last (takeWhile nonspace ?q) \<noteq> CHR '',''"
      and rest: "\<forall>t \<in> set (tokens ?r). CHR '','' \<in> set t \<and> last t \<noteq> CHR '',''"
      by (simp_all add: tokens_def ts)
    from item_end_in_token [OF loc False hd tok]
    obtain j where "j \<le> length (takeWhile nonspace ?q)" "item_end strtod ?q = drop j ?q" by blast
    then have nx: "dropWhile nonspace (item_end strtod ?q) = ?r" by (simp add: skip_token_drop)
    have "length ?r < length p" using next_shorter [OF False, of strtod] by (simp add: nx)
    from less.hyps [OF this rest]
    have "parse_loop strtod ?r (lst @ [coord_at strtod ?q]) =
      Some ((lst @ [coord_at strtod ?q]) @ map (coord_at strtod) (token_starts ?r))" .
    then show ?thesis by (simp add: parse_loop_step [OF False] nx ts)
  qed
qed

lemma token_starts_skip: "token_starts (dropWhile isspace s) = token_starts s"
  by (subst (1 2) token_starts.simps) simp

lemma token_starts_space: "isspace c \<Longrightarrow> token_starts (c # cs) = token_starts cs"
  using token_starts_skip [of "c # cs"] token_starts_skip [of cs] by simp

lemma token_starts_nonspace:
  "\<not> isspace c \<Longrightarrow> token_starts (c # cs) = (c # cs) # token_starts (dropWhile nonspace cs)"
  by (subst token_starts.simps) simp

lemma token_count_tl: "length (token_starts (tl s)) \<le> length (token_starts s)"
proof (cases s)
  case Nil
  then show ?thesis by simp
next
  case (Cons c cs)
  show ?thesis
  proof (cases "isspace c")
    case True
    then show ?thesis by (simp add: Cons token_starts_space)
  next
    case False
    note c = this
    show ?thesis
    proof (cases cs)
      case Nil
      then show ?thesis by (simp add: Cons token_starts_Nil)
    next
      case (Cons d ds)
      show ?thesis
      proof (cases "isspace d")
        case True
        then have "dropWhile nonspace cs = cs" by (simp add: Cons)
        with c show ?thesis by (simp add: \<open>s = c # cs\<close> token_starts_nonspace)
      next
        case False
        then have "token_starts cs = cs # token_starts (dropWhile nonspace ds)"
          by (simp add: Cons token_starts_nonspace)
        moreover from False have "dropWhile nonspace cs = dropWhile nonspace ds"
          by (simp add: Cons)
        ultimately show ?thesis using c by (simp add: \<open>s = c # cs\<close> token_starts_nonspace)
      qed
    qed
  qed
qed

lemma token_count_drop: "length (token_starts (drop j s)) \<le> length (token_starts s)"
proof (induction j arbitrary: s)
  case 0
  show ?case by simp
next
  case (Suc j)
  have "length (token_starts (drop (Suc j) s)) = length (token_starts (drop j (tl s)))"
    by (simp add: drop_Suc)
  also have "\<dots> \<le> length (token_starts (tl s))" by (rule Suc.IH)
  also have "\<dots> \<le> length (token_starts s)" by (rule token_count_tl)
  finally show ?case .
qed

lemma next_token_count:
  "length (token_starts (dropWhile nonspace (drop m q))) \<le> length (token_starts (dropWhile nonspace q))"
proof (cases "m \<le> length (takeWhile nonspace q)")
  case True
  then show ?thesis by (simp add: skip_token_drop)
next
  case False
  let ?T = "length (takeWhile nonspace q)"
  have "drop m q = drop (m - ?T) (drop ?T q)" using False by simp
  also have "drop ?T q = dropWhile nonspace q" by (simp add: dropWhile_eq_drop)
  finally have "dropWhile nonspace (drop m q) =
      drop (length (takeWhile nonspace (drop (m - ?T) (dropWhile nonspace q))) + (m - ?T)) (dropWhile nonspace q)"
    by (simp add: dropWhile_eq_drop [of nonspace "drop (m - ?T) (dropWhile nonspace q)"])
  then show ?thesis by (simp only: token_count_drop)
qed

lemma parse_loop_bound:
  "\<exists>r. parse_loop strtod p lst = Some r \<and> length r \<le> length lst + length (token_starts p)"
proof (induction "length p" arbitrary: p lst rule: less_induct)
  case less
  let ?q = "dropWhile isspace p"
  show ?case
  proof (cases "?q = []")
    case True
    then show ?thesis by (simp add: parse_loop_done)
  next
    case False
    let ?p' = "dropWhile nonspace (item_end strtod ?q)"
    obtain m where m: "item_end strtod ?q = drop m ?q" using item_end_drop by blast
    from less [OF next_shorter [OF False], of strtod "lst @ [coord_at strtod ?q]"]
    obtain r where r: "parse_loop strtod ?p' (lst @ [coord_at strtod ?q]) = Some r"
      "length r \<le> length (lst @ [coord_at strtod ?q]) + length (token_starts ?p')" by blast
    have "length (token_starts ?p') \<le> length (token_starts (dropWhile nonspace ?q))"
      unfolding m by (rule next_token_count)
    with r(2) have "length r \<le> length lst + length (token_starts p)"
      by (simp add: token_starts_Cons [OF False])
    with r(1) show ?thesis by (simp add: parse_loop_step [OF False])
  qed
qed

lemma token_starts_ex1: "token_starts ''1,2,3 4,5,6'' = [''1,2,3 4,5,6'', ''4,5,6'']"
  by (simp add: token_starts.simps isspace_def)

lemma token_starts_ex2: "token_starts ''1 2'' = [''1 2'', ''2'']"
  by (simp add: token_starts.simps isspace_def)

subsection \<open>One pair per token\<close>

text \<open>
  C2, as the code has it. \<open>parse_coords\<close> never returns more pairs than the text has
  tokens. When every token holds a comma and does not end with one, as every token
  \<open>lon,lat\<close> and \<open>lon,lat,alt\<close> does, it returns exactly one pair per token, in the order
  of the tokens: the pair read at the start of each token.
\<close>

theorem parse_coords_per_token:
  "(\<exists>r. parse_coords strtod s = Some r \<and> length r \<le> length (tokens s)) \<and>
   (strtod_local strtod \<and> (\<forall>t \<in> set (tokens s). CHR '','' \<in> set t \<and> last t \<noteq> CHR '','') \<longrightarrow>
      parse_coords strtod s = Some (map (coord_at strtod) (token_starts s)) \<and>
      length (map (coord_at strtod) (token_starts s)) = length (tokens s))"
  using parse_loop_bound [of strtod s "[]"] parse_loop_tokens [of strtod s "[]"]
  by (simp add: parse_coords_def tokens_def)

theorem parse_coords_per_token_witness:
  "parse_coords strtod_dec ''1,2,3 4,5,6'' = Some [(2, 1), (5, 4)] \<and>
   tokens ''1,2,3 4,5,6'' = [''1,2,3'', ''4,5,6'']"
  using parse_coords_per_token [of strtod_dec "''1,2,3 4,5,6''"] strtod_dec_local
  by (simp add: tokens_def token_starts_ex1 isspace_def coord_at_def lat_field_def strtod_dec_eval)

text \<open>
  C2 as stated fails on a token without a comma: \<^verbatim>\<open>strtod\<close> skips the white space after
  \<^verbatim>\<open>"1"\<close> and reads the latitude from the next token, so the two tokens of \<^verbatim>\<open>"1 2"\<close> give
  the single pair \<open>(2, 1)\<close>.
\<close>

theorem parse_coords_per_token_counterexample:
  "parse_coords strtod_dec ''1 2'' = Some [(2, 1)] \<and> tokens ''1 2'' = [''1'', ''2''] \<and>
   \<not> (\<exists>r. parse_coords strtod_dec ''1 2'' = Some r \<and> length r = length (tokens ''1 2''))"
  by (simp add: parse_coords_def parse_loop.simps tokens_def token_starts_ex2 strtod_dec_eval)

subsection \<open>Latitude first\<close>





end
